theory Spec2Isabelle
  imports Complex_Main "HOL-Library.Multiset"
begin

chapter \<open>The HLS proxy warmer\<close>

text \<open>
  A shallow embedding of the warming engine (utils.go, http.go, warmer.go and the
  daemon and playlist files). Go strings are byte sequences, here \<^typ>\<open>string\<close>
  (a list of 8-bit \<^typ>\<open>char\<close>); Go \<open>int\<close>, \<open>rune\<close> and \<open>time.Duration\<close> values
  are \<^typ>\<open>int\<close>.
\<close>

section \<open>utils.go: cleanString\<close>

subsection \<open>The library operations it calls\<close>

text \<open>
  \<open>strings.Map\<close> walks its argument rune by rune. A rune is read as \<open>range\<close> over a
  string and \<open>utf8.DecodeRuneInString\<close> read it: an ASCII byte is itself, a well-formed
  sequence of two to four bytes is one code point, and any other byte is the
  replacement rune \<open>utf8.RuneError\<close> of width 1. \<open>first_byte\<close> is the library's table
  \<open>first\<close> with \<open>acceptRanges\<close>: the length a lead byte announces (0 for a byte that
  cannot start a sequence) and the range its second byte must lie in. The masks
  \<open>s0 & 0x1F\<close>, \<open>s1 & 0x3F\<close> and the shifts of the library are written as \<open>mod\<close> and
  multiplication.
\<close>

definition RuneError :: int where
  "RuneError = 65533"

definition first_byte :: "nat \<Rightarrow> nat \<times> nat \<times> nat" where
  "first_byte s0 =
    (if s0 < 194 \<or> 244 < s0 then (0, 0, 0)
     else if s0 < 224 then (2, 128, 191)
     else if s0 = 224 then (3, 160, 191)
     else if s0 = 237 then (3, 128, 159)
     else if s0 < 240 then (3, 128, 191)
     else if s0 = 240 then (4, 144, 191)
     else if s0 = 244 then (4, 128, 143)
     else (4, 128, 191))"

definition decode_multi :: "nat \<Rightarrow> nat \<Rightarrow> nat \<Rightarrow> nat \<Rightarrow> string \<Rightarrow> int \<times> nat" where
  "decode_multi sz lo hi s0 s =
    (let s1 = (of_char (s ! 1) :: nat) in
     if s1 < lo \<or> hi < s1 then (RuneError, 1)
     else if sz \<le> 2 then (int ((s0 mod 32) * 64 + s1 mod 64), 2)
     else
       let s2 = (of_char (s ! 2) :: nat) in
       if s2 < 128 \<or> 191 < s2 then (RuneError, 1)
       else if sz \<le> 3
         then (int ((s0 mod 16) * 4096 + (s1 mod 64) * 64 + s2 mod 64), 3)
       else
         let s3 = (of_char (s ! 3) :: nat) in
         if s3 < 128 \<or> 191 < s3 then (RuneError, 1)
         else (int ((s0 mod 8) * 262144 + (s1 mod 64) * 4096
                      + (s2 mod 64) * 64 + s3 mod 64), 4))"

definition DecodeRuneInString :: "string \<Rightarrow> int \<times> nat" where
  "DecodeRuneInString s =
    (if length s < 1 then (RuneError, 0)
     else
       let s0 = (of_char (s ! 0) :: nat) in
       if s0 < 128 then (int s0, 1)
       else
         (case first_byte s0 of (sz, lo, hi) \<Rightarrow>
            if sz = 0 then (RuneError, 1)
            else if length s < sz then (RuneError, 1)
            else decode_multi sz lo hi s0 s))"

text \<open>
  \<open>Builder.WriteRune\<close>: the UTF-8 encoding of a rune, the encoding of \<open>RuneError\<close> for
  a surrogate or a value past \<open>utf8.MaxRune\<close>.
\<close>

definition WriteRune :: "int \<Rightarrow> string" where
  "WriteRune r =
    (let n = nat r in
     if r \<le> 127 then [char_of n]
     else if r \<le> 2047 then [char_of (192 + n div 64), char_of (128 + n mod 64)]
     else if 1114111 < r \<or> (55296 \<le> r \<and> r \<le> 57343)
       then [char_of (239 :: nat), char_of (191 :: nat), char_of (189 :: nat)]
     else if r \<le> 65535
       then [char_of (224 + n div 4096), char_of (128 + (n div 64) mod 64),
             char_of (128 + n mod 64)]
     else [char_of (240 + n div 262144), char_of (128 + (n div 4096) mod 64),
           char_of (128 + (n div 64) mod 64), char_of (128 + n mod 64)])"

lemma decode_multi_width: "0 < snd (decode_multi sz lo hi s0 s)"
  by (simp add: decode_multi_def Let_def)

lemma DecodeRuneInString_width: "s \<noteq> [] \<Longrightarrow> 0 < snd (DecodeRuneInString s)"
  by (simp add: DecodeRuneInString_def Let_def decode_multi_width split: prod.split)

text \<open>
  \<open>strings.Map(mapping, s)\<close>: every rune of \<open>s\<close> is given to \<open>mapping\<close>; a negative
  result drops the rune, any other result is written to the output.
\<close>

function strings_Map :: "(int \<Rightarrow> int) \<Rightarrow> string \<Rightarrow> string" where
  "strings_Map mapping s =
    (if s = [] then []
     else
       let c = fst (DecodeRuneInString s);
           width = snd (DecodeRuneInString s);
           r = mapping c
       in (if 0 \<le> r then WriteRune r else []) @ strings_Map mapping (drop width s))"
  by pat_completeness auto
termination
proof (relation "measure (\<lambda>(mapping, s). length s)")
  show "wf (measure (\<lambda>(mapping, s). length s))" by simp
next
  fix mapping :: "int \<Rightarrow> int" and s :: string and x xa
  assume "s \<noteq> []" and "xa = snd (DecodeRuneInString s)"
  then have "0 < xa" and "0 < length s"
    using DecodeRuneInString_width [of s] by simp_all
  then show "((mapping, drop xa s), (mapping, s)) \<in> measure (\<lambda>(mapping, s). length s)"
    by simp
qed

declare strings_Map.simps [simp del]

text \<open>\<open>strings.ReplaceAll(s, "\x00", "")\<close>: every NUL byte is taken out.\<close>

definition ReplaceAll_NUL :: "string \<Rightarrow> string" where
  "ReplaceAll_NUL s = filter (\<lambda>c. c \<noteq> char_of (0 :: nat)) s"

subsection \<open>cleanString\<close>

text \<open>The function literal handed to \<open>strings.Map\<close>: \<open>-1\<close> drops the rune.\<close>

definition keep_rune :: "int \<Rightarrow> int" where
  "keep_rune r =
    (if (r \<ge> 32 \<and> r \<le> 126) \<or> r = 9 \<or> r = 10 \<or> r = 13 then r else - 1)"

definition cleanString :: "string \<Rightarrow> string" where
  "cleanString s = strings_Map keep_rune (ReplaceAll_NUL s)"

text \<open>The bytes the comment of \<open>cleanString\<close> allows.\<close>

definition printable :: "char \<Rightarrow> bool" where
  "printable c =
    ((32 \<le> (of_char c :: nat) \<and> (of_char c :: nat) \<le> 126)
      \<or> (of_char c :: nat) = 9 \<or> (of_char c :: nat) = 10 \<or> (of_char c :: nat) = 13)"


section \<open>Properties of cleanString\<close>

lemma modsub: "k * n \<le> (x::nat) \<Longrightarrow> x < k * n + n \<Longrightarrow> x mod n = x - k * n"
  by (metis add.commute le_add_diff_inverse mod_less mod_mult_self1 nat_add_left_cancel_less)

lemma leaf2: "\<not> (x::nat) < 194 \<Longrightarrow> x < 224 \<Longrightarrow> 128 \<le> int (x mod 32) * 64 + int y"
  using modsub [of 6 32 x] by simp
lemma leaf3a:
  "\<not> (x::nat) < 224 \<Longrightarrow> x \<noteq> 224 \<Longrightarrow> x < 240
    \<Longrightarrow> 128 \<le> int (x mod 16) * 4096 + int y * 64 + int z"
  using modsub [of 14 16 x] by simp
lemma leaf3b:
  "\<not> (y::nat) < 160 \<Longrightarrow> \<not> hi < y \<Longrightarrow> hi \<le> 191
    \<Longrightarrow> 128 \<le> int (y mod 64) * 64 + int z"
  using modsub [of 2 64 y] by simp
lemma leaf4a:
  "\<not> (x::nat) < 240 \<Longrightarrow> x \<noteq> 240 \<Longrightarrow> \<not> 244 < x
    \<Longrightarrow> 128 \<le> int (x mod 8) * 262144 + int y * 4096 + int z * 64 + int w"
  using modsub [of 30 8 x] by simp
lemma leaf4b:
  "\<not> (y::nat) < 144 \<Longrightarrow> \<not> hi < y \<Longrightarrow> hi \<le> 191
    \<Longrightarrow> 128 \<le> int (y mod 64) * 4096 + int z * 64 + int w"
  using modsub [of 2 64 y] by simp

lemma Decode_ascii:
  assumes "(of_char c :: nat) < 128"
  shows "DecodeRuneInString (c # t) = (int (of_char c), 1)"
  using assms by (simp add: DecodeRuneInString_def)

text \<open>What the lead byte promises about the rest of the sequence.\<close>

definition lead_ok :: "nat \<Rightarrow> nat \<Rightarrow> nat \<Rightarrow> nat \<Rightarrow> bool" where
  "lead_ok s0 sz lo hi =
    (128 \<le> lo \<and> hi \<le> 191 \<and> (sz = 2 \<or> sz = 3 \<or> sz = 4) \<and>
     (sz = 2 \<longrightarrow> \<not> s0 < 194 \<and> s0 < 224) \<and>
     (sz = 3 \<longrightarrow> \<not> s0 < 224 \<and> s0 < 240 \<and> (s0 = 224 \<longrightarrow> lo = 160)) \<and>
     (sz = 4 \<longrightarrow> \<not> s0 < 240 \<and> \<not> 244 < s0 \<and> (s0 = 240 \<longrightarrow> lo = 144)))"

lemma first_byte_ok:
  "first_byte s0 = (sz, lo, hi) \<Longrightarrow> sz \<noteq> 0 \<Longrightarrow> lead_ok s0 sz lo hi"
  by (auto simp: first_byte_def lead_ok_def split: if_splits)

lemma decode_multi_rune:
  assumes "lead_ok s0 sz lo hi"
  shows "128 \<le> fst (decode_multi sz lo hi s0 s)"
proof -
  consider "sz = 2" | "sz = 3" | "sz = 4" using assms by (auto simp: lead_ok_def)
  then show ?thesis
  proof cases
    case 1
    then show ?thesis using assms
      by (simp add: decode_multi_def Let_def RuneError_def lead_ok_def leaf2)
  next
    case 2
    show ?thesis
    proof (cases "s0 = 224")
      case True
      then show ?thesis
        using assms 2 leaf3b [of "of_char (s ! 1)" hi "of_char (s ! 2) mod 64"]
        by (simp add: decode_multi_def Let_def RuneError_def lead_ok_def)
    next
      case False
      then show ?thesis using assms 2
        by (simp add: decode_multi_def Let_def RuneError_def lead_ok_def leaf3a)
    qed
  next
    case 3
    show ?thesis
    proof (cases "s0 = 240")
      case True
      then show ?thesis
        using assms 3
          leaf4b [of "of_char (s ! 1)" hi "of_char (s ! 2) mod 64" "of_char (s ! 3) mod 64"]
        by (simp add: decode_multi_def Let_def RuneError_def lead_ok_def)
    next
      case False
      then show ?thesis using assms 3
        by (simp add: decode_multi_def Let_def RuneError_def lead_ok_def leaf4a)
    qed
  qed
qed

lemma decode_multi_bytes:
  assumes "lead_ok s0 sz lo hi" and "sz \<le> length s" and "128 \<le> (of_char (s ! 0) :: nat)"
  shows "\<forall>x \<in> set (take (snd (decode_multi sz lo hi s0 s)) s). 128 \<le> (of_char x :: nat)"
proof -
  obtain c t where s: "s = c # t" using assms by (cases s) (auto simp: lead_ok_def)
  consider "sz = 2" | "sz = 3" | "sz = 4" using assms by (auto simp: lead_ok_def)
  then show ?thesis
  proof cases
    case 1
    then obtain c1 t1 where "t = c1 # t1" using assms s by (cases t) auto
    then show ?thesis using assms s 1
      by (simp add: decode_multi_def Let_def lead_ok_def)
  next
    case 2
    then obtain c1 c2 t2 where "t = c1 # c2 # t2"
      using assms s by (cases t; cases "tl t") auto
    then show ?thesis using assms s 2
      by (simp add: decode_multi_def Let_def lead_ok_def)
  next
    case 3
    then obtain c1 c2 c3 t3 where "t = c1 # c2 # c3 # t3"
      using assms s by (cases t; cases "tl t"; cases "tl (tl t)") auto
    then show ?thesis using assms s 3
      by (simp add: decode_multi_def Let_def lead_ok_def)
  qed
qed

lemma Decode_high_rune:
  assumes "128 \<le> (of_char c :: nat)"
  shows "128 \<le> fst (DecodeRuneInString (c # t))"
proof -
  obtain sz lo hi where f: "first_byte (of_char c) = (sz, lo, hi)"
    by (cases "first_byte (of_char c)") auto
  show ?thesis
  proof (cases "sz = 0 \<or> length (c # t) < sz")
    case True
    then show ?thesis using assms f by (auto simp: DecodeRuneInString_def RuneError_def)
  next
    case False
    then have "lead_ok (of_char c) sz lo hi"
      using f first_byte_ok by auto
    then have "128 \<le> fst (decode_multi sz lo hi (of_char c) (c # t))"
      by (rule decode_multi_rune)
    then show ?thesis using assms f False by (simp add: DecodeRuneInString_def)
  qed
qed

lemma Decode_high_bytes:
  assumes "128 \<le> (of_char c :: nat)"
  shows "\<forall>x \<in> set (take (snd (DecodeRuneInString (c # t))) (c # t)). 128 \<le> (of_char x :: nat)"
proof -
  obtain sz lo hi where f: "first_byte (of_char c) = (sz, lo, hi)"
    by (cases "first_byte (of_char c)") auto
  show ?thesis
  proof (cases "sz = 0 \<or> length (c # t) < sz")
    case True
    then show ?thesis using assms f by (auto simp: DecodeRuneInString_def)
  next
    case False
    then have "lead_ok (of_char c) sz lo hi" and "sz \<le> length (c # t)"
      using f first_byte_ok by auto
    then have "\<forall>x \<in> set (take (snd (decode_multi sz lo hi (of_char c) (c # t))) (c # t)).
        128 \<le> (of_char x :: nat)"
      using assms by (intro decode_multi_bytes) simp_all
    then show ?thesis using assms f False by (simp add: DecodeRuneInString_def)
  qed
qed

lemma printable_low: "printable x \<Longrightarrow> (of_char x :: nat) < 128"
  by (auto simp: printable_def)

lemma keep_rune_high: "128 \<le> r \<Longrightarrow> keep_rune r = - 1"
  by (simp add: keep_rune_def)

lemma keep_rune_ascii:
  "(of_char c :: nat) < 128 \<Longrightarrow>
     (if 0 \<le> keep_rune (int (of_char c)) then WriteRune (keep_rune (int (of_char c))) else [])
       = (if printable c then [c] else [])"
  by (auto simp: keep_rune_def printable_def WriteRune_def)

lemma strings_Map_keep_rune: "strings_Map keep_rune s = filter printable s"
proof (induction s rule: length_induct)
  case (1 s)
  show ?case
  proof (cases s)
    case Nil
    then show ?thesis by (simp add: strings_Map.simps)
  next
    case (Cons c t)
    show ?thesis
    proof (cases "(of_char c :: nat) < 128")
      case True
      have "strings_Map keep_rune t = filter printable t"
        using 1 Cons by simp
      then show ?thesis
        using Cons True keep_rune_ascii [OF True]
        by (subst strings_Map.simps) (simp add: Decode_ascii Let_def)
    next
      case False
      then have hi: "128 \<le> (of_char c :: nat)" by simp
      let ?w = "snd (DecodeRuneInString (c # t))"
      have w: "0 < ?w" using DecodeRuneInString_width [of "c # t"] by simp
      have "\<forall>x \<in> set (take ?w (c # t)). \<not> printable x"
        using Decode_high_bytes [OF hi, of t] printable_low by (meson not_le)
      then have "filter printable (take ?w (c # t)) = []"
        by (simp add: filter_empty_conv)
      then have "filter printable (c # t) = filter printable (drop ?w (c # t))"
        by (metis append_take_drop_id filter_append self_append_conv2)
      moreover have "strings_Map keep_rune (drop ?w (c # t)) = filter printable (drop ?w (c # t))"
        using 1 Cons w by simp
      moreover have "keep_rune (fst (DecodeRuneInString (c # t))) = - 1"
        using Decode_high_rune [OF hi] keep_rune_high by simp
      ultimately show ?thesis
        using Cons by (subst strings_Map.simps) (simp add: Let_def)
    qed
  qed
qed

lemma cleanString_filter: "cleanString s = filter printable s"
proof -
  have "filter printable (filter (\<lambda>c. c \<noteq> char_of (0 :: nat)) s) = filter printable s"
    by (induction s) (auto simp: printable_def)
  then show ?thesis
    by (simp add: cleanString_def ReplaceAll_NUL_def strings_Map_keep_rune)
qed

text \<open>
  Claim C10. For every input string, the output of \<open>cleanString\<close> contains only printable
  ASCII characters (codes 32 through 126) plus tab, newline and carriage return, and
  \<open>cleanString\<close> is idempotent.
\<close>

theorem cleanString_printable_idempotent:
  "(\<forall>c \<in> set (cleanString s).
      (32 \<le> (of_char c :: nat) \<and> (of_char c :: nat) \<le> 126)
        \<or> (of_char c :: nat) = 9 \<or> (of_char c :: nat) = 10 \<or> (of_char c :: nat) = 13)
   \<and> cleanString (cleanString s) = cleanString s"
  by (simp add: cleanString_filter printable_def [symmetric])

text \<open>
  The theorem at a string with a NUL byte, an escape byte, a two-byte rune, a stray
  continuation byte and a tab.
\<close>

theorem cleanString_printable_idempotent_witness:
  "cleanString [char_of (0 :: nat), CHR ''a'', char_of (27 :: nat), char_of (195 :: nat),
       char_of (169 :: nat), CHR ''b'', char_of (128 :: nat), char_of (9 :: nat)]
     = [CHR ''a'', CHR ''b'', char_of (9 :: nat)]
   \<and> cleanString [CHR ''a'', CHR ''b'', char_of (9 :: nat)]
     = [CHR ''a'', CHR ''b'', char_of (9 :: nat)]"
proof -
  let ?s = "[char_of (0 :: nat), CHR ''a'', char_of (27 :: nat), char_of (195 :: nat),
       char_of (169 :: nat), CHR ''b'', char_of (128 :: nat), char_of (9 :: nat)]"
  have e: "cleanString ?s = [CHR ''a'', CHR ''b'', char_of (9 :: nat)]"
    by code_simp
  show ?thesis
    using cleanString_printable_idempotent [of ?s] e by simp
qed

section \<open>http.go: detectCacheHit\<close>

subsection \<open>The library operations it calls\<close>

text \<open>\<open>strings.HasPrefix\<close> and \<open>strings.Contains\<close> on byte strings.\<close>

fun HasPrefix :: "string \<Rightarrow> string \<Rightarrow> bool" where
  "HasPrefix s [] = True"
| "HasPrefix [] (p # ps) = False"
| "HasPrefix (c # cs) (p # ps) = (c = p \<and> HasPrefix cs ps)"

fun Contains :: "string \<Rightarrow> string \<Rightarrow> bool" where
  "Contains [] substr = (substr = [])"
| "Contains (c # cs) substr = (HasPrefix (c # cs) substr \<or> Contains cs substr)"

text \<open>
  \<open>strings.ToLower\<close>: a string of ASCII bytes has its letters \<open>A\<close> to \<open>Z\<close> lowered;
  any other string is mapped rune by rune through \<open>unicode.ToLower\<close>, which lowers an
  ASCII rune the same way and looks every other rune up in the Unicode case tables.
  The tables are not part of the repository: they are the parameter \<open>CaseRanges\<close>.
\<close>

definition lower_byte :: "char \<Rightarrow> char" where
  "lower_byte c =
    (if 65 \<le> (of_char c :: nat) \<and> (of_char c :: nat) \<le> 90
     then char_of ((of_char c :: nat) + 32) else c)"

definition unicode_ToLower :: "(int \<Rightarrow> int) \<Rightarrow> int \<Rightarrow> int" where
  "unicode_ToLower CaseRanges r =
    (if r \<le> 127 then (if 65 \<le> r \<and> r \<le> 90 then r + 32 else r) else CaseRanges r)"

definition ToLower :: "(int \<Rightarrow> int) \<Rightarrow> string \<Rightarrow> string" where
  "ToLower CaseRanges s =
    (if list_all (\<lambda>c. (of_char c :: nat) < 128) s then map lower_byte s
     else strings_Map (unicode_ToLower CaseRanges) s)"

text \<open>
  \<open>http.Header\<close> is a map from canonical header names to the list of values received.
  \<open>Header.Get\<close> canonicalises the name it is asked for and returns the first value, or
  the empty string when the name has no value.
\<close>

type_synonym Header = "string \<rightharpoonup> string list"

definition validHeaderFieldByte :: "char \<Rightarrow> bool" where
  "validHeaderFieldByte c =
    (let n = (of_char c :: nat) in
     (48 \<le> n \<and> n \<le> 57) \<or> (65 \<le> n \<and> n \<le> 90) \<or> (97 \<le> n \<and> n \<le> 122)
       \<or> c \<in> set ''!#$%&*+-.^_`|~'' \<or> n = 39)"

fun canonical_bytes :: "bool \<Rightarrow> string \<Rightarrow> string" where
  "canonical_bytes upper [] = []"
| "canonical_bytes upper (c # cs) =
    (let n = (of_char c :: nat);
         c' = (if upper \<and> 97 \<le> n \<and> n \<le> 122 then char_of (n - 32)
               else if \<not> upper \<and> 65 \<le> n \<and> n \<le> 90 then char_of (n + 32)
               else c)
     in c' # canonical_bytes (c' = CHR ''-'') cs)"

definition CanonicalMIMEHeaderKey :: "string \<Rightarrow> string" where
  "CanonicalMIMEHeaderKey s =
    (if list_all validHeaderFieldByte s then canonical_bytes True s else s)"

definition Header_Get :: "Header \<Rightarrow> string \<Rightarrow> string" where
  "Header_Get h key =
    (case h (CanonicalMIMEHeaderKey key) of
       None \<Rightarrow> []
     | Some [] \<Rightarrow> []
     | Some (v # vs) \<Rightarrow> v)"

subsection \<open>detectCacheHit\<close>

definition cacheHeaders :: "string list" where
  "cacheHeaders =
    [''X-Cache'', ''X-Cache-Status'', ''X-Served-By'', ''CF-Cache-Status'',
     ''X-Fastly-Cache'', ''X-Varnish-Cache'', ''Age'']"

definition hitIndicators :: "string list" where
  "hitIndicators = [''hit'', ''HIT'', ''cached'', ''CACHED'']"

text \<open>
  The two nested loops return \<open>true\<close> at the first header and indicator that match;
  \<open>list_ex\<close> is that search. The test on \<open>Age\<close> follows them.
\<close>

definition detectCacheHit :: "(int \<Rightarrow> int) \<Rightarrow> Header \<Rightarrow> bool" where
  "detectCacheHit CaseRanges header =
    (if list_ex (\<lambda>name.
          let v = Header_Get header name in
          v \<noteq> [] \<and>
          list_ex (\<lambda>indicator.
             Contains (ToLower CaseRanges v) (ToLower CaseRanges indicator)) hitIndicators)
        cacheHeaders
     then True
     else
       let age = Header_Get header ''Age'' in
       if age \<noteq> [] \<and> age \<noteq> ''0'' then True else False)"

text \<open>The six vendor headers of the list, \<open>Age\<close> left out.\<close>

definition vendorHeaders :: "string list" where
  "vendorHeaders = butlast cacheHeaders"

section \<open>Properties of detectCacheHit\<close>

lemma zero_no_indicator:
  "\<not> list_ex (\<lambda>indicator. Contains (ToLower L ''0'') (ToLower L indicator)) hitIndicators"
  by (simp add: hitIndicators_def ToLower_def lower_byte_def)

lemma canonical_cacheHeaders:
  "CanonicalMIMEHeaderKey ''X-Cache'' = ''X-Cache''"
  "CanonicalMIMEHeaderKey ''X-Cache-Status'' = ''X-Cache-Status''"
  "CanonicalMIMEHeaderKey ''X-Served-By'' = ''X-Served-By''"
  "CanonicalMIMEHeaderKey ''CF-Cache-Status'' = ''Cf-Cache-Status''"
  "CanonicalMIMEHeaderKey ''X-Fastly-Cache'' = ''X-Fastly-Cache''"
  "CanonicalMIMEHeaderKey ''X-Varnish-Cache'' = ''X-Varnish-Cache''"
  "CanonicalMIMEHeaderKey ''Age'' = ''Age''"
  by code_simp+

lemma detectCacheHit_without_vendor:
  assumes "\<forall>name \<in> set vendorHeaders. Header_Get h name = []"
  shows "detectCacheHit L h \<longleftrightarrow> (Header_Get h ''Age'' \<noteq> [] \<and> Header_Get h ''Age'' \<noteq> ''0'')"
  using assms zero_no_indicator [of L]
  by (auto simp: detectCacheHit_def vendorHeaders_def cacheHeaders_def Let_def)

lemma Header_Get_Age:
  "Header_Get h ''Age''
     = (case h ''Age'' of None \<Rightarrow> [] | Some [] \<Rightarrow> [] | Some (v # vs) \<Rightarrow> v)"
  by (simp add: Header_Get_def canonical_cacheHeaders)

text \<open>
  Claim C8, as amended. For every response in which \<open>Header.Get\<close> finds no value for any
  of the six vendor cache headers, the classifier returns hit exactly when an \<open>Age\<close>
  header is present whose first value is not empty and is not the literal string
  \<open>0\<close>.
\<close>

theorem detectCacheHit_Age:
  assumes "\<forall>name \<in> set vendorHeaders. Header_Get h name = []"
  shows "detectCacheHit L h \<longleftrightarrow> (\<exists>v vs. h ''Age'' = Some (v # vs) \<and> v \<noteq> [] \<and> v \<noteq> ''0'')"
proof -
  have "(Header_Get h ''Age'' \<noteq> [] \<and> Header_Get h ''Age'' \<noteq> ''0'')
      \<longleftrightarrow> (\<exists>v vs. h ''Age'' = Some (v # vs) \<and> v \<noteq> [] \<and> v \<noteq> ''0'')"
    by (auto simp: Header_Get_Age split: option.splits list.splits)
  then show ?thesis using detectCacheHit_without_vendor [OF assms, of L] by simp
qed

text \<open>
  The three responses of the claim: \<open>Age: 120\<close> alone is a hit, \<open>Age: 0\<close> alone is a
  miss, and a response with none of the listed headers is a miss.
\<close>

lemma Header_Get_Age_only:
  "\<forall>name \<in> set vendorHeaders. Header_Get [''Age'' \<mapsto> vs] name = []"
  "Header_Get Map.empty name = []"
  by (simp_all add: Header_Get_def vendorHeaders_def cacheHeaders_def canonical_cacheHeaders)

theorem detectCacheHit_Age_witness:
  "detectCacheHit id [''Age'' \<mapsto> [''120'']]
   \<and> \<not> detectCacheHit id [''Age'' \<mapsto> [''0'']]
   \<and> \<not> detectCacheHit id Map.empty"
  using detectCacheHit_Age [of "[''Age'' \<mapsto> [''120'']]" id]
    detectCacheHit_Age [of "[''Age'' \<mapsto> [''0'']]" id]
    detectCacheHit_Age [of Map.empty id]
  by (simp add: Header_Get_Age_only)

text \<open>
  Claim C8 as it is stated fails on a response whose only header is an \<open>Age\<close> header
  with an empty value: the header is present, its value is not \<open>0\<close>, no vendor header
  is there, and the classifier says miss, by its test \<open>age != ""\<close>.
\<close>

theorem detectCacheHit_Age_counterexample:
  "[''Age'' \<mapsto> [[]]] ''Age'' = Some [[]]
   \<and> [] \<noteq> ''0''
   \<and> map (Header_Get [''Age'' \<mapsto> [[]]]) vendorHeaders = [[], [], [], [], [], []]
   \<and> \<not> detectCacheHit id [''Age'' \<mapsto> [[]]]"
  using detectCacheHit_without_vendor [of "[''Age'' \<mapsto> [[]]]" id]
  by (simp add: Header_Get_Age Header_Get_Age_only)
    (simp add: vendorHeaders_def cacheHeaders_def Header_Get_def canonical_cacheHeaders)

section \<open>config.go and warmer.go: the data\<close>

text \<open>
  \<open>CacheStatus\<close> is the outcome of one request; its \<open>Error\<close> is the message of the
  error value, absent for \<open>nil\<close>. The two \<open>Duration\<close> fields are told apart as
  \<open>Duration\<close> and \<open>TotalDuration\<close>. Times are nanoseconds.
\<close>

record CacheStatus =
  URL :: string
  Hit :: bool
  StatusCode :: int
  Headers :: "string \<rightharpoonup> string"
  Error :: "string option"
  Duration :: int

record WarmResult =
  M3U8URL :: string
  TotalFiles :: int
  CachedFiles :: int
  Errors :: "string list"
  TotalDuration :: int
  Details :: "CacheStatus list"

text \<open>
  The fields of \<open>HLSWarmer\<close> that the engine reads or writes. \<open>processedURLs\<close> is the
  ledger of the daemon, \<open>streamActive\<close> its activity flags, \<open>cacheStats\<close> the last outcome
  recorded for a segment.
\<close>

record HLSWarmer =
  maxWorkers :: int
  debug :: bool
  quiet :: bool
  cacheStats :: "string \<rightharpoonup> CacheStatus"
  processedURLs :: "string \<rightharpoonup> int"
  processedTTL :: int
  rewarmLast :: int
  streamActive :: "string \<rightharpoonup> bool"

text \<open>
  \<open>Config\<close> and \<open>NewHLSWarmer\<close>, with the defaults of config.go: 10 workers and a TTL of
  five minutes. The HTTP client and the request headers belong to the transport.
\<close>

record Config =
  Workers :: int
  TTL :: int
  RewarmLast :: int
  Debug :: bool
  Quiet :: bool

definition defaultWorkers :: int where
  "defaultWorkers = 10"

definition defaultTTL :: int where
  "defaultTTL = 5 * 60 * 1000000000"

definition NewHLSWarmer :: "Config \<Rightarrow> HLSWarmer" where
  "NewHLSWarmer config =
    \<lparr>maxWorkers = (if Workers config = 0 then defaultWorkers else Workers config),
     debug = Debug config,
     quiet = Quiet config,
     cacheStats = Map.empty,
     processedURLs = Map.empty,
     processedTTL = (if TTL config = 0 then defaultTTL else TTL config),
     rewarmLast = RewarmLast config,
     streamActive = Map.empty\<rparr>"

section \<open>The daemon: which segments a tick fetches\<close>

text \<open>
  \<open>warmStreamOnce\<close> between the parse and the fetch. The clock of a tick is one reading
  \<open>now\<close>: \<open>time.Since(last)\<close> is \<open>now - last\<close> and \<open>time.Now()\<close> is \<open>now\<close>.

  The first loop keeps a segment that the ledger has not seen or whose stamp is older
  than the TTL, and stamps it.
\<close>

fun filter_processed ::
  "int \<Rightarrow> int \<Rightarrow> string list \<Rightarrow> string list \<times> (string \<rightharpoonup> int)
    \<Rightarrow> string list \<times> (string \<rightharpoonup> int)" where
  "filter_processed now ttl [] (newSegments, ledger) = (newSegments, ledger)"
| "filter_processed now ttl (segment # rest) (newSegments, ledger) =
    (if (case ledger segment of None \<Rightarrow> True | Some lastSeen \<Rightarrow> now - lastSeen > ttl)
     then filter_processed now ttl rest (newSegments @ [segment], ledger(segment \<mapsto> now))
     else filter_processed now ttl rest (newSegments, ledger))"

text \<open>
  The second loop runs over \<open>segments[start:]\<close>: a segment not yet in \<open>included\<close> is
  appended, and every segment of the tail is stamped.
\<close>

fun rewarm_tail ::
  "int \<Rightarrow> string list \<Rightarrow> string list \<times> string set \<times> (string \<rightharpoonup> int)
    \<Rightarrow> string list \<times> string set \<times> (string \<rightharpoonup> int)" where
  "rewarm_tail now [] st = st"
| "rewarm_tail now (s # rest) (newSegments, included, ledger) =
    (if s \<notin> included
     then rewarm_tail now rest (newSegments @ [s], insert s included, ledger(s \<mapsto> now))
     else rewarm_tail now rest (newSegments, included, ledger(s \<mapsto> now)))"

text \<open>The index \<open>start\<close> of the second loop.\<close>

definition rewarm_start :: "HLSWarmer \<Rightarrow> string list \<Rightarrow> nat" where
  "rewarm_start h segments =
    (if int (length segments) > rewarmLast h
     then nat (int (length segments) - rewarmLast h) else 0)"

definition select_segments :: "int \<Rightarrow> string list \<Rightarrow> HLSWarmer \<Rightarrow> string list \<times> HLSWarmer" where
  "select_segments now segments h =
    (case filter_processed now (processedTTL h) segments ([], processedURLs h) of
       (newSegments, ledger) \<Rightarrow>
         if rewarmLast h > 0
         then
           (case rewarm_tail now (drop (rewarm_start h segments) segments)
                   (newSegments, set newSegments, ledger) of
              (newSegments', included, ledger') \<Rightarrow>
                (newSegments', h\<lparr>processedURLs := ledger'\<rparr>))
         else (newSegments, h\<lparr>processedURLs := ledger\<rparr>))"

text \<open>The segments the first loop alone selects: the new set of the tick.\<close>

definition new_set :: "int \<Rightarrow> string list \<Rightarrow> HLSWarmer \<Rightarrow> string list" where
  "new_set now segments h =
    fst (filter_processed now (processedTTL h) segments ([], processedURLs h))"

text \<open>The segments the rewarm policy looks at: none when it is off.\<close>

definition rewarm_candidates :: "HLSWarmer \<Rightarrow> string list \<Rightarrow> string list" where
  "rewarm_candidates h segments =
    (if rewarmLast h > 0 then drop (rewarm_start h segments) segments else [])"

section \<open>Properties of the selection\<close>

lemma filter_processed_keeps:
  assumes "ledger seg = Some T" and "\<not> now - T > ttl"
  shows "(seg \<in> set (fst (filter_processed now ttl segs (new, ledger))) \<longleftrightarrow> seg \<in> set new)
         \<and> snd (filter_processed now ttl segs (new, ledger)) seg = Some T"
  using assms
proof (induction segs arbitrary: new ledger)
  case Nil
  then show ?case by simp
next
  case (Cons a segs)
  show ?case
  proof (cases "a = seg")
    case True
    then show ?thesis using Cons by simp
  next
    case False
    then show ?thesis using Cons by (auto split: option.splits)
  qed
qed

lemma filter_processed_done:
  assumes "seg \<in> set new" and "ledger seg = Some now"
  shows "seg \<in> set (fst (filter_processed now ttl segs (new, ledger)))
         \<and> snd (filter_processed now ttl segs (new, ledger)) seg = Some now"
  using assms
  by (induction segs arbitrary: new ledger) (auto split: option.splits)

lemma filter_processed_takes:
  assumes "seg \<in> set segs" and "ledger seg = None \<or> (\<exists>T. ledger seg = Some T \<and> now - T > ttl)"
  shows "seg \<in> set (fst (filter_processed now ttl segs (new, ledger)))
         \<and> snd (filter_processed now ttl segs (new, ledger)) seg = Some now"
  using assms
proof (induction segs arbitrary: new ledger)
  case Nil
  then show ?case by simp
next
  case (Cons a segs)
  show ?case
  proof (cases "a = seg")
    case True
    then show ?thesis
      using Cons.prems filter_processed_done [of seg "new @ [seg]" "ledger(seg \<mapsto> now)" now ttl segs]
      by auto
  next
    case False
    then have mem: "seg \<in> set segs" using Cons.prems by simp
    have upd: "(ledger(a \<mapsto> now)) seg = None
        \<or> (\<exists>T. (ledger(a \<mapsto> now)) seg = Some T \<and> now - T > ttl)"
      using False Cons.prems(2) by simp
    have keep: "seg \<in> set (fst (filter_processed now ttl segs (new, ledger)))
        \<and> snd (filter_processed now ttl segs (new, ledger)) seg = Some now"
      by (rule Cons.IH) (use mem Cons.prems(2) in simp_all)
    have take: "seg \<in> set (fst (filter_processed now ttl segs (new @ [a], ledger(a \<mapsto> now))))
        \<and> snd (filter_processed now ttl segs (new @ [a], ledger(a \<mapsto> now))) seg = Some now"
      by (rule Cons.IH) (use mem upd in simp_all)
    show ?thesis
    proof (cases "case ledger a of None \<Rightarrow> True | Some lastSeen \<Rightarrow> now - lastSeen > ttl")
      case True
      have "filter_processed now ttl (a # segs) (new, ledger)
          = filter_processed now ttl segs (new @ [a], ledger(a \<mapsto> now))"
        using True by simp
      then show ?thesis using take by (simp only:)
    next
      case False
      have "filter_processed now ttl (a # segs) (new, ledger)
          = filter_processed now ttl segs (new, ledger)"
        using False by simp
      then show ?thesis using keep by (simp only:)
    qed
  qed
qed

lemma filter_processed_all_fresh:
  assumes "\<forall>s \<in> set segs. \<exists>T. ledger s = Some T \<and> \<not> now - T > ttl"
  shows "filter_processed now ttl segs (new, ledger) = (new, ledger)"
  using assms by (induction segs arbitrary: new ledger) auto

lemma rewarm_tail_outside:
  assumes "s \<notin> set tail"
  shows "(s \<in> set (fst (rewarm_tail now tail (new, inc, ledger))) \<longleftrightarrow> s \<in> set new)
         \<and> snd (snd (rewarm_tail now tail (new, inc, ledger))) s = ledger s"
  using assms by (induction tail arbitrary: new inc ledger) auto

lemma rewarm_tail_grows:
  "set new \<subseteq> set (fst (rewarm_tail now tail (new, inc, ledger)))"
proof (induction tail arbitrary: new inc ledger)
  case Nil
  then show ?case by simp
next
  case (Cons a tail)
  show ?case
  proof (cases "a \<in> inc")
    case True
    have "set new \<subseteq> set (fst (rewarm_tail now tail (new, inc, ledger(a \<mapsto> now))))"
      by (rule Cons.IH)
    moreover have "rewarm_tail now (a # tail) (new, inc, ledger)
        = rewarm_tail now tail (new, inc, ledger(a \<mapsto> now))"
      using True by simp
    ultimately show ?thesis by (simp only:)
  next
    case False
    have "set (new @ [a])
        \<subseteq> set (fst (rewarm_tail now tail (new @ [a], insert a inc, ledger(a \<mapsto> now))))"
      by (rule Cons.IH)
    moreover have "rewarm_tail now (a # tail) (new, inc, ledger)
        = rewarm_tail now tail (new @ [a], insert a inc, ledger(a \<mapsto> now))"
      using False by simp
    ultimately show ?thesis by (simp only: set_append) blast
  qed
qed

lemma rewarm_tail_stamped:
  assumes "ledger s = Some now \<or> s \<in> set tail"
  shows "snd (snd (rewarm_tail now tail (new, inc, ledger))) s = Some now"
  using assms by (induction tail arbitrary: new inc ledger) auto


lemma drop_to_last:
  assumes "segments \<noteq> []"
  shows "drop (length segments - 1) segments = [last segments]"
  using assms
  by (metis append_butlast_last_id append_eq_conv_conj length_butlast)

lemma rewarm_start_one:
  assumes "rewarmLast h = 1" and "segments \<noteq> []"
  shows "drop (rewarm_start h segments) segments = [last segments]"
proof (cases "length segments = 1")
  case True
  then obtain x where "segments = [x]" by (cases segments) auto
  then show ?thesis using assms by (simp add: rewarm_start_def)
next
  case False
  then have "1 < length segments" using assms(2) by (cases segments) auto
  then have "rewarm_start h segments = length segments - 1"
    using assms(1) by (simp add: rewarm_start_def nat_diff_distrib')
  then show ?thesis using drop_to_last [OF assms(2)] by simp
qed

text \<open>
  Claim C4, as amended. For a segment of the playlist whose ledger entry was stamped at
  time \<open>T\<close>: a tick at \<open>T + TTL/2\<close> leaves the segment out of the new set, and out of the
  fetch set with its stamp untouched unless the segment is among the positions the
  rewarm-last policy looks at; a tick at \<open>T + TTL + \<epsilon>\<close> with \<open>\<epsilon> > 0\<close> selects it as new,
  fetches it and stamps its entry with the time of the tick. The TTL is not negative,
  so that the tick at \<open>T + TTL/2\<close> is not earlier than the stamp.
\<close>

theorem dedup_ledger_ttl:
  assumes "0 \<le> processedTTL h"
    and "processedURLs h seg = Some T"
    and "seg \<in> set segments"
  shows "seg \<notin> set (new_set (T + processedTTL h div 2) segments h)
    \<and> (seg \<notin> set (rewarm_candidates h segments) \<longrightarrow>
         seg \<notin> set (fst (select_segments (T + processedTTL h div 2) segments h))
         \<and> processedURLs (snd (select_segments (T + processedTTL h div 2) segments h)) seg
             = Some T)
    \<and> (0 < \<epsilon> \<longrightarrow>
         seg \<in> set (new_set (T + processedTTL h + \<epsilon>) segments h)
         \<and> seg \<in> set (fst (select_segments (T + processedTTL h + \<epsilon>) segments h))
         \<and> processedURLs (snd (select_segments (T + processedTTL h + \<epsilon>) segments h)) seg
             = Some (T + processedTTL h + \<epsilon>))"
proof -
  let ?ttl = "processedTTL h"
  let ?half = "T + ?ttl div 2"
  let ?late = "T + ?ttl + \<epsilon>"
  obtain n1 l1 where f1: "filter_processed ?half ?ttl segments ([], processedURLs h) = (n1, l1)"
    by (cases "filter_processed ?half ?ttl segments ([], processedURLs h)") auto
  have fresh: "\<not> ?half - T > ?ttl" using assms(1) by simp
  have k1: "seg \<notin> set n1" and k2: "l1 seg = Some T"
    using filter_processed_keeps [where ledger = "processedURLs h" and seg = seg and T = T
        and now = ?half and ttl = ?ttl and segs = segments and new = "[]", OF assms(2) fresh] f1
    by simp_all
  have part1: "seg \<notin> set (new_set ?half segments h)"
    using k1 f1 by (simp add: new_set_def)
  have part2: "seg \<notin> set (fst (select_segments ?half segments h))
      \<and> processedURLs (snd (select_segments ?half segments h)) seg = Some T"
    if out: "seg \<notin> set (rewarm_candidates h segments)"
  proof (cases "rewarmLast h > 0")
    case True
    then have tail: "seg \<notin> set (drop (rewarm_start h segments) segments)"
      using out by (simp add: rewarm_candidates_def)
    obtain n2 i2 l2 where r:
      "rewarm_tail ?half (drop (rewarm_start h segments) segments) (n1, set n1, l1) = (n2, i2, l2)"
      by (cases "rewarm_tail ?half (drop (rewarm_start h segments) segments) (n1, set n1, l1)") auto
    have "(seg \<in> set n2 \<longleftrightarrow> seg \<in> set n1) \<and> l2 seg = l1 seg"
      using rewarm_tail_outside [OF tail, of ?half n1 "set n1" l1] r by simp
    then show ?thesis using True f1 r k1 k2 by (simp add: select_segments_def)
  next
    case False
    then show ?thesis using f1 k1 k2 by (simp add: select_segments_def)
  qed
  have part3: "seg \<in> set (new_set ?late segments h)
      \<and> seg \<in> set (fst (select_segments ?late segments h))
      \<and> processedURLs (snd (select_segments ?late segments h)) seg = Some ?late"
    if pos: "0 < \<epsilon>"
  proof -
    obtain n3 l3 where f3: "filter_processed ?late ?ttl segments ([], processedURLs h) = (n3, l3)"
      by (cases "filter_processed ?late ?ttl segments ([], processedURLs h)") auto
    have stale: "processedURLs h seg = None
        \<or> (\<exists>T'. processedURLs h seg = Some T' \<and> ?late - T' > ?ttl)"
      using assms(2) pos by simp
    have t1: "seg \<in> set n3" and t2: "l3 seg = Some ?late"
      using filter_processed_takes [where ledger = "processedURLs h" and seg = seg
          and now = ?late and ttl = ?ttl and segs = segments and new = "[]", OF assms(3) stale] f3
      by simp_all
    show ?thesis
    proof (cases "rewarmLast h > 0")
      case True
      obtain n4 i4 l4 where r:
        "rewarm_tail ?late (drop (rewarm_start h segments) segments) (n3, set n3, l3) = (n4, i4, l4)"
        by (cases "rewarm_tail ?late (drop (rewarm_start h segments) segments) (n3, set n3, l3)") auto
      have "set n3 \<subseteq> set n4"
        using rewarm_tail_grows [of n3 ?late "drop (rewarm_start h segments) segments" "set n3" l3] r
        by simp
      moreover have "l4 seg = Some ?late"
        using rewarm_tail_stamped [of l3 seg ?late "drop (rewarm_start h segments) segments" n3 "set n3"]
          t2 r by simp
      ultimately show ?thesis using True f3 r t1 by (auto simp: select_segments_def new_set_def)
    next
      case False
      then show ?thesis using f3 t1 t2 by (simp add: select_segments_def new_set_def)
    qed
  qed
  show ?thesis using part1 part2 part3 by blast
qed

text \<open>
  The theorem at a warmer with a TTL of 10 whose ledger holds the first of two segments,
  stamped at time 1000: the tick at 1005 selects only the second segment and leaves the
  stamp, the tick at 1011 selects both and stamps the first again.
\<close>

theorem dedup_ledger_ttl_witness:
  "new_set 1005 [''https://cdn.example/live/seg001.ts'', ''https://cdn.example/live/seg002.ts'']
      ((NewHLSWarmer \<lparr>Workers = 0, TTL = 10, RewarmLast = 0, Debug = False, Quiet = False\<rparr>)
        \<lparr>processedURLs := [''https://cdn.example/live/seg001.ts'' \<mapsto> 1000]\<rparr>)
     = [''https://cdn.example/live/seg002.ts'']
   \<and> processedURLs (snd (select_segments 1005
        [''https://cdn.example/live/seg001.ts'', ''https://cdn.example/live/seg002.ts'']
        ((NewHLSWarmer \<lparr>Workers = 0, TTL = 10, RewarmLast = 0, Debug = False, Quiet = False\<rparr>)
          \<lparr>processedURLs := [''https://cdn.example/live/seg001.ts'' \<mapsto> 1000]\<rparr>)))
        ''https://cdn.example/live/seg001.ts'' = Some 1000
   \<and> fst (select_segments 1011
        [''https://cdn.example/live/seg001.ts'', ''https://cdn.example/live/seg002.ts'']
        ((NewHLSWarmer \<lparr>Workers = 0, TTL = 10, RewarmLast = 0, Debug = False, Quiet = False\<rparr>)
          \<lparr>processedURLs := [''https://cdn.example/live/seg001.ts'' \<mapsto> 1000]\<rparr>))
     = [''https://cdn.example/live/seg001.ts'', ''https://cdn.example/live/seg002.ts'']
   \<and> processedURLs (snd (select_segments 1011
        [''https://cdn.example/live/seg001.ts'', ''https://cdn.example/live/seg002.ts'']
        ((NewHLSWarmer \<lparr>Workers = 0, TTL = 10, RewarmLast = 0, Debug = False, Quiet = False\<rparr>)
          \<lparr>processedURLs := [''https://cdn.example/live/seg001.ts'' \<mapsto> 1000]\<rparr>)))
        ''https://cdn.example/live/seg001.ts'' = Some 1011"
  using dedup_ledger_ttl [of
      "(NewHLSWarmer \<lparr>Workers = 0, TTL = 10, RewarmLast = 0, Debug = False, Quiet = False\<rparr>)
        \<lparr>processedURLs := [''https://cdn.example/live/seg001.ts'' \<mapsto> 1000]\<rparr>"
      "''https://cdn.example/live/seg001.ts''" 1000
      "[''https://cdn.example/live/seg001.ts'', ''https://cdn.example/live/seg002.ts'']" 1]
  by (simp add: NewHLSWarmer_def new_set_def select_segments_def rewarm_candidates_def)

text \<open>
  Claim C4 as it is stated fails when the rewarm-last policy is on: with rewarm-last = 1
  the only segment of the playlist, stamped at 0 under a TTL of 10, is not in the new
  set of the tick at \<open>0 + 10/2\<close> and is selected for fetching all the same, and stamped
  again.
\<close>

theorem dedup_ledger_ttl_counterexample:
  "new_set 5 [''https://cdn.example/live/seg001.ts'']
      ((NewHLSWarmer \<lparr>Workers = 0, TTL = 10, RewarmLast = 1, Debug = False, Quiet = False\<rparr>)
        \<lparr>processedURLs := [''https://cdn.example/live/seg001.ts'' \<mapsto> 0]\<rparr>)
     = []
   \<and> fst (select_segments 5 [''https://cdn.example/live/seg001.ts'']
      ((NewHLSWarmer \<lparr>Workers = 0, TTL = 10, RewarmLast = 1, Debug = False, Quiet = False\<rparr>)
        \<lparr>processedURLs := [''https://cdn.example/live/seg001.ts'' \<mapsto> 0]\<rparr>))
     = [''https://cdn.example/live/seg001.ts'']
   \<and> processedURLs (snd (select_segments 5 [''https://cdn.example/live/seg001.ts'']
      ((NewHLSWarmer \<lparr>Workers = 0, TTL = 10, RewarmLast = 1, Debug = False, Quiet = False\<rparr>)
        \<lparr>processedURLs := [''https://cdn.example/live/seg001.ts'' \<mapsto> 0]\<rparr>)))
      ''https://cdn.example/live/seg001.ts'' = Some 5"
  by (simp add: NewHLSWarmer_def new_set_def select_segments_def rewarm_start_def)

text \<open>
  Claim C5. With rewarm-last = 1, a tick in which no segment of the playlist is absent
  from the ledger or expired fetches exactly the final segment of the playlist, once,
  and stamps its ledger entry with the time of the tick.
\<close>

theorem rewarm_last_one:
  assumes "rewarmLast h = 1"
    and "segments \<noteq> []"
    and "\<forall>s \<in> set segments. \<exists>T. processedURLs h s = Some T \<and> \<not> now - T > processedTTL h"
  shows "select_segments now segments h
    = ([last segments], h\<lparr>processedURLs := (processedURLs h)(last segments \<mapsto> now)\<rparr>)"
proof -
  have "filter_processed now (processedTTL h) segments ([], processedURLs h)
      = ([], processedURLs h)"
    using assms(3) by (rule filter_processed_all_fresh)
  then show ?thesis
    using assms(1) rewarm_start_one [OF assms(1,2)] by (simp add: select_segments_def)
qed


text \<open>
  The theorem at a playlist of two segments, both stamped at 0 under a TTL of 10, and a
  tick at time 3.
\<close>

theorem rewarm_last_one_witness:
  "fst (select_segments 3
      [''https://cdn.example/live/seg001.ts'', ''https://cdn.example/live/seg002.ts'']
      ((NewHLSWarmer \<lparr>Workers = 0, TTL = 10, RewarmLast = 1, Debug = False, Quiet = False\<rparr>)
        \<lparr>processedURLs := [''https://cdn.example/live/seg001.ts'' \<mapsto> 0,
            ''https://cdn.example/live/seg002.ts'' \<mapsto> 0]\<rparr>))
     = [''https://cdn.example/live/seg002.ts'']
   \<and> processedURLs (snd (select_segments 3
      [''https://cdn.example/live/seg001.ts'', ''https://cdn.example/live/seg002.ts'']
      ((NewHLSWarmer \<lparr>Workers = 0, TTL = 10, RewarmLast = 1, Debug = False, Quiet = False\<rparr>)
        \<lparr>processedURLs := [''https://cdn.example/live/seg001.ts'' \<mapsto> 0,
            ''https://cdn.example/live/seg002.ts'' \<mapsto> 0]\<rparr>)))
      ''https://cdn.example/live/seg002.ts'' = Some 3"
  using rewarm_last_one [of
      "(NewHLSWarmer \<lparr>Workers = 0, TTL = 10, RewarmLast = 1, Debug = False, Quiet = False\<rparr>)
        \<lparr>processedURLs := [''https://cdn.example/live/seg001.ts'' \<mapsto> 0,
            ''https://cdn.example/live/seg002.ts'' \<mapsto> 0]\<rparr>"
      "[''https://cdn.example/live/seg001.ts'', ''https://cdn.example/live/seg002.ts'']" 3]
  by (simp add: NewHLSWarmer_def)

section \<open>The daemon: one warm cycle per stream\<close>

text \<open>
  \<open>h.streamActive[stream]\<close> reads \<open>false\<close> for a key the map does not hold. Both
  functions run under \<open>streamMu\<close>, so each is one step.
\<close>

definition stream_active :: "HLSWarmer \<Rightarrow> string \<Rightarrow> bool" where
  "stream_active h stream = (case streamActive h stream of None \<Rightarrow> False | Some b \<Rightarrow> b)"

definition beginStreamProcessing :: "string \<Rightarrow> HLSWarmer \<Rightarrow> bool \<times> HLSWarmer" where
  "beginStreamProcessing stream h =
    (if stream_active h stream then (False, h)
     else (True, h\<lparr>streamActive := (streamActive h)(stream \<mapsto> True)\<rparr>))"

definition endStreamProcessing :: "string \<Rightarrow> HLSWarmer \<Rightarrow> HLSWarmer" where
  "endStreamProcessing stream h = h\<lparr>streamActive := (streamActive h)(stream := None)\<rparr>"

text \<open>
  The state of the daemon: the warmer, and the goroutines that \<open>scheduleStreamWarm\<close> has
  started and that have not returned yet, each named by its stream.
\<close>

record daemon =
  warmer :: HLSWarmer
  cycles :: "string list"

text \<open>
  \<open>scheduleStreamWarm\<close>: when \<open>beginStreamProcessing\<close> refuses, the tick returns (it
  prints a notice in debug mode); otherwise it starts the goroutine of one cycle.
\<close>

definition scheduleStreamWarm :: "string \<Rightarrow> daemon \<Rightarrow> daemon" where
  "scheduleStreamWarm m3u8URL d =
    (case beginStreamProcessing m3u8URL (warmer d) of
       (proceed, h) \<Rightarrow>
         if \<not> proceed then d
         else d\<lparr>warmer := h, cycles := cycles d @ [m3u8URL]\<rparr>)"

text \<open>
  What \<open>warmStreamOnce\<close> leaves in the warmer: nothing when the parse failed (it logs
  and returns), the ledger of the selection otherwise; the outcomes its fetches store
  in \<open>cacheStats\<close> are left out here. It never touches \<open>streamActive\<close>. The goroutine runs \<open>endStreamProcessing\<close> as it returns, by \<open>defer\<close>,
  on either path.
\<close>

definition warmStreamOnce_state :: "int \<Rightarrow> string + string list \<Rightarrow> HLSWarmer \<Rightarrow> HLSWarmer" where
  "warmStreamOnce_state now parsed h =
    (case parsed of
       Inl err \<Rightarrow> h
     | Inr segments \<Rightarrow> snd (select_segments now segments h))"

definition cycle_returns :: "string \<Rightarrow> int \<Rightarrow> string + string list \<Rightarrow> daemon \<Rightarrow> daemon" where
  "cycle_returns m3u8URL now parsed d =
    d\<lparr>warmer := endStreamProcessing m3u8URL (warmStreamOnce_state now parsed (warmer d)),
      cycles := remove1 m3u8URL (cycles d)\<rparr>"

text \<open>
  The events of the daemon: a tick of the ticker of a stream (or the initial call of
  \<open>RunDaemon\<close>), and the return of a running cycle, with the clock and the outcome of
  its parse. A cycle can only return when it is running.
\<close>

datatype event = Tick string | Returns string int "string + string list"

fun daemon_step :: "event \<Rightarrow> daemon \<Rightarrow> daemon option" where
  "daemon_step (Tick m3u8URL) d = Some (scheduleStreamWarm m3u8URL d)"
| "daemon_step (Returns m3u8URL now parsed) d =
    (if m3u8URL \<in> set (cycles d) then Some (cycle_returns m3u8URL now parsed d) else None)"

fun daemon_run :: "event list \<Rightarrow> daemon \<Rightarrow> daemon option" where
  "daemon_run [] d = Some d"
| "daemon_run (e # es) d =
    (case daemon_step e d of None \<Rightarrow> None | Some d' \<Rightarrow> daemon_run es d')"

definition daemon_start :: "Config \<Rightarrow> daemon" where
  "daemon_start config = \<lparr>warmer = NewHLSWarmer config, cycles = []\<rparr>"

section \<open>Properties of the scheduler\<close>

text \<open>The flags name exactly the running cycles, and no stream runs two.\<close>

definition flags_match :: "daemon \<Rightarrow> bool" where
  "flags_match d =
    (distinct (cycles d) \<and> (\<forall>m. stream_active (warmer d) m \<longleftrightarrow> m \<in> set (cycles d)))"

lemma select_segments_streamActive:
  "streamActive (snd (select_segments now segments h)) = streamActive h"
  by (simp add: select_segments_def split: prod.split)

lemma warmStreamOnce_state_active:
  "stream_active (warmStreamOnce_state now parsed h) m = stream_active h m"
  by (simp add: warmStreamOnce_state_def stream_active_def select_segments_streamActive
      split: sum.split)

lemma flags_match_start: "flags_match (daemon_start config)"
  by (simp add: flags_match_def daemon_start_def NewHLSWarmer_def stream_active_def)

lemma flags_match_Tick:
  assumes "flags_match d"
  shows "flags_match (scheduleStreamWarm m d)"
  using assms
  by (auto simp: flags_match_def scheduleStreamWarm_def beginStreamProcessing_def
      stream_active_def)

lemma flags_match_Returns:
  assumes "flags_match d"
  shows "flags_match (cycle_returns m now parsed d)"
proof -
  have "stream_active (endStreamProcessing m (warmStreamOnce_state now parsed (warmer d))) k
      \<longleftrightarrow> k \<noteq> m \<and> stream_active (warmer d) k" for k
    using warmStreamOnce_state_active [of now parsed "warmer d" k]
    by (simp add: endStreamProcessing_def stream_active_def)
  then show ?thesis
    using assms by (auto simp: flags_match_def cycle_returns_def)
qed

lemma flags_match_step:
  assumes "flags_match d" and "daemon_step e d = Some d'"
  shows "flags_match d'"
  using assms by (cases e) (auto simp: flags_match_Tick flags_match_Returns split: if_splits)

lemma flags_match_run:
  assumes "flags_match d" and "daemon_run es d = Some d'"
  shows "flags_match d'"
  using assms
  by (induction es arbitrary: d) (auto split: option.splits dest: flags_match_step)

lemma distinct_count_list: "distinct xs \<Longrightarrow> count_list xs x \<le> 1"
  by (induction xs) auto


text \<open>
  Claim C2. In every state the daemon reaches, a stream has at most one running cycle.
  A tick that finds the flag of its stream set changes nothing: no cycle starts and
  nothing is queued. A tick that finds it clear sets it and starts one cycle. When the
  cycle returns, after a failed parse or after warming, the flag is cleared and the
  cycle is gone; and no other step clears a flag that is set.
\<close>

theorem one_cycle_per_stream:
  assumes "daemon_run es (daemon_start config) = Some d"
  shows "count_list (cycles d) m \<le> 1
    \<and> (stream_active (warmer d) m \<longleftrightarrow> m \<in> set (cycles d))
    \<and> (stream_active (warmer d) m \<longrightarrow> daemon_step (Tick m) d = Some d)
    \<and> (\<not> stream_active (warmer d) m \<longrightarrow>
          cycles (scheduleStreamWarm m d) = cycles d @ [m]
          \<and> stream_active (warmer (scheduleStreamWarm m d)) m)
    \<and> (m \<in> set (cycles d) \<longrightarrow>
          daemon_step (Returns m now parsed) d = Some (cycle_returns m now parsed d)
          \<and> \<not> stream_active (warmer (cycle_returns m now parsed d)) m
          \<and> m \<notin> set (cycles (cycle_returns m now parsed d)))
    \<and> (stream_active (warmer d) m \<and> daemon_step e d = Some d'
          \<and> \<not> stream_active (warmer d') m \<longrightarrow> (\<exists>t p. e = Returns m t p))"
proof -
  have inv: "flags_match d"
    using flags_match_run [OF flags_match_start assms] .
  have one: "count_list (cycles d) m \<le> 1"
    using inv distinct_count_list [of "cycles d" m] by (simp add: flags_match_def)
  have flag: "stream_active (warmer d) m \<longleftrightarrow> m \<in> set (cycles d)"
    using inv by (simp add: flags_match_def)
  have skip: "daemon_step (Tick m) d = Some d" if "stream_active (warmer d) m"
    using that by (simp add: scheduleStreamWarm_def beginStreamProcessing_def)
  have start: "cycles (scheduleStreamWarm m d) = cycles d @ [m]
      \<and> stream_active (warmer (scheduleStreamWarm m d)) m"
    if "\<not> stream_active (warmer d) m"
    using that by (simp add: scheduleStreamWarm_def beginStreamProcessing_def stream_active_def)
  have inv': "flags_match (cycle_returns m now parsed d)"
    using inv by (rule flags_match_Returns)
  have gone: "m \<notin> set (cycles (cycle_returns m now parsed d))"
    using inv by (simp add: cycle_returns_def flags_match_def)
  then have cleared: "\<not> stream_active (warmer (cycle_returns m now parsed d)) m"
    using inv' by (simp add: flags_match_def)
  have ret: "daemon_step (Returns m now parsed) d = Some (cycle_returns m now parsed d)"
    if "m \<in> set (cycles d)"
    using that by simp
  have only: "\<exists>t p. e = Returns m t p"
    if a: "stream_active (warmer d) m" and st: "daemon_step e d = Some d'"
      and c: "\<not> stream_active (warmer d') m"
  proof (cases e)
    case (Tick k)
    then have "stream_active (warmer d') m"
      using a st
      by (auto simp: scheduleStreamWarm_def beginStreamProcessing_def stream_active_def
          split: if_splits)
    then show ?thesis using c by simp
  next
    case (Returns k t p)
    have "stream_active (warmer (cycle_returns k t p d)) m \<longleftrightarrow> m \<noteq> k \<and> stream_active (warmer d) m"
      using warmStreamOnce_state_active [of t p "warmer d" m]
      by (simp add: cycle_returns_def endStreamProcessing_def stream_active_def)
    then have "m = k" using a c st Returns by (auto split: if_splits)
    then show ?thesis using Returns by simp
  qed
  show ?thesis using one flag skip start ret cleared gone only by blast
qed

text \<open>
  The theorem after two ticks for one stream: one cycle runs, a third tick is a no-op,
  and the return of the cycle after a failed parse clears the flag.
\<close>

theorem one_cycle_per_stream_witness:
  "daemon_run [Tick ''https://cdn.example/live/index.m3u8'',
               Tick ''https://cdn.example/live/index.m3u8'']
      (daemon_start \<lparr>Workers = 0, TTL = 0, RewarmLast = 0, Debug = False, Quiet = False\<rparr>)
     = Some \<lparr>warmer =
          (NewHLSWarmer \<lparr>Workers = 0, TTL = 0, RewarmLast = 0, Debug = False, Quiet = False\<rparr>)
            \<lparr>streamActive := [''https://cdn.example/live/index.m3u8'' \<mapsto> True]\<rparr>,
         cycles = [''https://cdn.example/live/index.m3u8'']\<rparr>
   \<and> daemon_step (Tick ''https://cdn.example/live/index.m3u8'')
        \<lparr>warmer =
          (NewHLSWarmer \<lparr>Workers = 0, TTL = 0, RewarmLast = 0, Debug = False, Quiet = False\<rparr>)
            \<lparr>streamActive := [''https://cdn.example/live/index.m3u8'' \<mapsto> True]\<rparr>,
         cycles = [''https://cdn.example/live/index.m3u8'']\<rparr>
     = Some \<lparr>warmer =
          (NewHLSWarmer \<lparr>Workers = 0, TTL = 0, RewarmLast = 0, Debug = False, Quiet = False\<rparr>)
            \<lparr>streamActive := [''https://cdn.example/live/index.m3u8'' \<mapsto> True]\<rparr>,
         cycles = [''https://cdn.example/live/index.m3u8'']\<rparr>
   \<and> \<not> stream_active (warmer (cycle_returns ''https://cdn.example/live/index.m3u8'' 7
        (Inl ''connection refused'')
        \<lparr>warmer =
          (NewHLSWarmer \<lparr>Workers = 0, TTL = 0, RewarmLast = 0, Debug = False, Quiet = False\<rparr>)
            \<lparr>streamActive := [''https://cdn.example/live/index.m3u8'' \<mapsto> True]\<rparr>,
         cycles = [''https://cdn.example/live/index.m3u8'']\<rparr>))
      ''https://cdn.example/live/index.m3u8''"
proof -
  let ?m = "''https://cdn.example/live/index.m3u8''"
  let ?c = "\<lparr>Workers = 0, TTL = 0, RewarmLast = 0, Debug = False, Quiet = False\<rparr>"
  let ?d = "\<lparr>warmer = (NewHLSWarmer ?c)\<lparr>streamActive := [?m \<mapsto> True]\<rparr>, cycles = [?m]\<rparr>"
  have run: "daemon_run [Tick ?m, Tick ?m] (daemon_start ?c) = Some ?d"
    by (simp add: daemon_start_def scheduleStreamWarm_def beginStreamProcessing_def
        stream_active_def NewHLSWarmer_def)
  have active: "stream_active (warmer ?d) ?m"
    by (simp add: stream_active_def)
  show ?thesis
    using run active
      one_cycle_per_stream [OF run, of ?m 7 "Inl ''connection refused''"]
    by simp
qed

section \<open>The playlist parser\<close>

subsection \<open>Strings and the line scanner\<close>

text \<open>
  \<open>strings.TrimSpace\<close> removes the runes of Unicode white space from both ends: six
  ASCII bytes, and the runes U+0085, U+00A0, U+1680, U+2000 to U+200A, U+2028, U+2029,
  U+202F, U+205F and U+3000. A rune past ASCII stands at an end of the string exactly
  when its UTF-8 encoding does, so the function strips these encodings.
\<close>

definition asciiSpace :: "char \<Rightarrow> bool" where
  "asciiSpace c = (c \<in> set [CHR 0x09, CHR 0x0A, CHR 0x0B, CHR 0x0C, CHR 0x0D, CHR '' ''])"

definition space_encodings :: "string list" where
  "space_encodings =
    [[CHR 0xC2, CHR 0x85], [CHR 0xC2, CHR 0xA0], [CHR 0xE1, CHR 0x9A, CHR 0x80],
     [CHR 0xE2, CHR 0x80, CHR 0x80], [CHR 0xE2, CHR 0x80, CHR 0x81],
     [CHR 0xE2, CHR 0x80, CHR 0x82], [CHR 0xE2, CHR 0x80, CHR 0x83],
     [CHR 0xE2, CHR 0x80, CHR 0x84], [CHR 0xE2, CHR 0x80, CHR 0x85],
     [CHR 0xE2, CHR 0x80, CHR 0x86], [CHR 0xE2, CHR 0x80, CHR 0x87],
     [CHR 0xE2, CHR 0x80, CHR 0x88], [CHR 0xE2, CHR 0x80, CHR 0x89],
     [CHR 0xE2, CHR 0x80, CHR 0x8A], [CHR 0xE2, CHR 0x80, CHR 0xA8],
     [CHR 0xE2, CHR 0x80, CHR 0xA9], [CHR 0xE2, CHR 0x80, CHR 0xAF],
     [CHR 0xE2, CHR 0x81, CHR 0x9F], [CHR 0xE3, CHR 0x80, CHR 0x80]]"

definition HasSuffix :: "string \<Rightarrow> string \<Rightarrow> bool" where
  "HasSuffix s suffix = HasPrefix (rev s) (rev suffix)"

text \<open>The number of bytes of white space a string starts with, and ends with.\<close>

definition leading_space :: "string \<Rightarrow> nat" where
  "leading_space s =
    (case s of
       [] \<Rightarrow> 0
     | c # cs \<Rightarrow>
         if (of_char c :: nat) < 128 then (if asciiSpace c then 1 else 0)
         else (case find (HasPrefix s) space_encodings of None \<Rightarrow> 0 | Some e \<Rightarrow> length e))"

definition trailing_space :: "string \<Rightarrow> nat" where
  "trailing_space s =
    (case rev s of
       [] \<Rightarrow> 0
     | c # cs \<Rightarrow>
         if (of_char c :: nat) < 128 then (if asciiSpace c then 1 else 0)
         else (case find (HasSuffix s) space_encodings of None \<Rightarrow> 0 | Some e \<Rightarrow> length e))"

lemma HasPrefix_length: "HasPrefix s e \<Longrightarrow> length e \<le> length s"
  by (induction s e rule: HasPrefix.induct) auto

lemma find_prefix_length:
  "(case find (HasPrefix s) es of None \<Rightarrow> 0 | Some e \<Rightarrow> length e) \<le> length s"
proof (cases "find (HasPrefix s) es")
  case None
  then show ?thesis by simp
next
  case (Some e)
  then have "HasPrefix s e" by (auto simp: find_Some_iff)
  then show ?thesis using Some HasPrefix_length [of s e] by simp
qed

lemma leading_space_le: "leading_space s \<le> length s"
proof (cases s)
  case Nil
  then show ?thesis by (simp add: leading_space_def)
next
  case (Cons c cs)
  then show ?thesis
    using find_prefix_length [of s space_encodings] by (simp add: leading_space_def)
qed

lemma trailing_space_le: "trailing_space s \<le> length s"
proof (cases "rev s")
  case Nil
  then show ?thesis by (simp add: trailing_space_def)
next
  case (Cons c cs)
  then have "0 < length s" by (cases s) auto
  moreover have "(case find (HasSuffix s) space_encodings of None \<Rightarrow> 0 | Some e \<Rightarrow> length e)
      \<le> length s"
  proof (cases "find (HasSuffix s) space_encodings")
    case None
    then show ?thesis by simp
  next
    case (Some e)
    then have "HasSuffix s e" by (auto simp: find_Some_iff)
    then show ?thesis
      using Some HasPrefix_length [of "rev s" "rev e"] by (simp add: HasSuffix_def)
  qed
  ultimately show ?thesis using Cons by (simp add: trailing_space_def)
qed

function TrimLeft_space :: "string \<Rightarrow> string" where
  "TrimLeft_space s =
    (if leading_space s = 0 then s else TrimLeft_space (drop (leading_space s) s))"
  by pat_completeness auto
termination
proof (relation "measure length")
  show "wf (measure length)" by simp
next
  fix s :: string
  assume "leading_space s \<noteq> 0"
  then show "(drop (leading_space s) s, s) \<in> measure length"
    using leading_space_le [of s] by simp
qed

function TrimRight_space :: "string \<Rightarrow> string" where
  "TrimRight_space s =
    (if trailing_space s = 0 then s
     else TrimRight_space (take (length s - trailing_space s) s))"
  by pat_completeness auto
termination
proof (relation "measure length")
  show "wf (measure length)" by simp
next
  fix s :: string
  assume "trailing_space s \<noteq> 0"
  then show "(take (length s - trailing_space s) s, s) \<in> measure length"
    using trailing_space_le [of s] by simp
qed

declare TrimLeft_space.simps [simp del] TrimRight_space.simps [simp del]

definition TrimSpace :: "string \<Rightarrow> string" where
  "TrimSpace s = TrimRight_space (TrimLeft_space s)"

text \<open>\<open>strings.ContainsAny(s, chars)\<close> for a set of ASCII bytes.\<close>

definition ContainsAny :: "string \<Rightarrow> string \<Rightarrow> bool" where
  "ContainsAny s chars = list_ex (\<lambda>c. c \<in> set chars) s"

text \<open>
  \<open>bufio.Scanner\<close> with its default split function \<open>ScanLines\<close>: a line ends at a
  newline, one carriage return before it is dropped, and the data after the last
  newline is a line when it is not empty. A line of \<open>MaxScanTokenSize\<close> = 65536 bytes
  or more stops the scanner with \<open>ErrTooLong\<close>: the flag of the result.
\<close>

definition dropCR :: "string \<Rightarrow> string" where
  "dropCR s = (if s \<noteq> [] \<and> last s = CHR 0x0D then butlast s else s)"

definition MaxScanTokenSize :: nat where
  "MaxScanTokenSize = 64 * 1024"

fun scan_lines :: "string \<Rightarrow> string \<Rightarrow> string list \<times> bool" where
  "scan_lines cur [] =
    (if cur = [] then ([], False)
     else if MaxScanTokenSize \<le> length cur then ([], True)
     else ([dropCR cur], False))"
| "scan_lines cur (c # cs) =
    (if c = CHR 0x0A
     then (if MaxScanTokenSize \<le> length cur then ([], True)
           else (dropCR cur # fst (scan_lines [] cs), snd (scan_lines [] cs)))
     else scan_lines (cur @ [c]) cs)"

subsection \<open>The part of net/url that is modelled\<close>

text \<open>
  \<open>url.Parse\<close>, \<open>ResolveReference\<close> and \<open>String\<close> are modelled where no percent-escape
  is read or written and no user information stands in the authority: a path made of
  letters, digits and \<open>-_.~$&+,/:;=@\<close>, a fragment of these and \<open>?!()*\<close>, a host
  without \<open>@\<close>, \<open>[\<close>, \<open>%\<close> and without bytes past ASCII. Inside this part the result is the
  library's: \<open>Parsed\<close> for a URL, \<open>ParseError\<close> where the library returns an error.
  Outside it the model says \<open>Unmodelled\<close> and nothing else.
\<close>

datatype 'a parsed = Parsed 'a | ParseError | Unmodelled

record url_URL =
  Scheme :: string
  Opaque :: string
  Host :: string
  Path :: string
  ForceQuery :: bool
  RawQuery :: string
  Fragment :: string
  OmitHost :: bool

definition empty_URL :: url_URL where
  "empty_URL = \<lparr>Scheme = [], Opaque = [], Host = [], Path = [], ForceQuery = False,
     RawQuery = [], Fragment = [], OmitHost = False\<rparr>"

definition is_alpha :: "char \<Rightarrow> bool" where
  "is_alpha c =
    (let n = (of_char c :: nat) in (65 \<le> n \<and> n \<le> 90) \<or> (97 \<le> n \<and> n \<le> 122))"

definition is_digit :: "char \<Rightarrow> bool" where
  "is_digit c = (let n = (of_char c :: nat) in 48 \<le> n \<and> n \<le> 57)"

definition stringContainsCTLByte :: "string \<Rightarrow> bool" where
  "stringContainsCTLByte s =
    list_ex (\<lambda>c. (of_char c :: nat) < 32 \<or> (of_char c :: nat) = 127) s"

text \<open>\<open>getScheme\<close>: \<open>None\<close> is the error \<open>missing protocol scheme\<close>.\<close>

fun getScheme_loop :: "string \<Rightarrow> string \<Rightarrow> string \<Rightarrow> (string \<times> string) option" where
  "getScheme_loop rawURL seen [] = Some ([], rawURL)"
| "getScheme_loop rawURL seen (c # cs) =
    (if is_alpha c then getScheme_loop rawURL (seen @ [c]) cs
     else if is_digit c \<or> c = CHR ''+'' \<or> c = CHR ''-'' \<or> c = CHR ''.''
       then (if seen = [] then Some ([], rawURL) else getScheme_loop rawURL (seen @ [c]) cs)
     else if c = CHR '':''
       then (if seen = [] then None else Some (seen, cs))
     else Some ([], rawURL))"

definition getScheme :: "string \<Rightarrow> (string \<times> string) option" where
  "getScheme rawURL = getScheme_loop rawURL [] rawURL"

text \<open>\<open>strings.Cut\<close> at a single byte: the text before it and the text after it.\<close>

definition Cut_before :: "char \<Rightarrow> string \<Rightarrow> string" where
  "Cut_before sep s = takeWhile (\<lambda>c. c \<noteq> sep) s"

definition Cut_after :: "char \<Rightarrow> string \<Rightarrow> string" where
  "Cut_after sep s = drop 1 (dropWhile (\<lambda>c. c \<noteq> sep) s)"

definition path_byte :: "char \<Rightarrow> bool" where
  "path_byte c = (is_alpha c \<or> is_digit c \<or> c \<in> set ''-_.~$&+,/:;=@'')"

definition fragment_byte :: "char \<Rightarrow> bool" where
  "fragment_byte c = (path_byte c \<or> c \<in> set ''?!()*'')"

text \<open>The bytes a host may hold unescaped (\<open>shouldEscape\<close> in host mode says no).\<close>

definition host_byte :: "char \<Rightarrow> bool" where
  "host_byte c =
    (is_alpha c \<or> is_digit c \<or> c \<in> set ''-_.~!$&()*+,;=:[]<>'' \<or> (of_char c :: nat) = 39
      \<or> (of_char c :: nat) = 34)"

definition validOptionalPort :: "string \<Rightarrow> bool" where
  "validOptionalPort port =
    (case port of [] \<Rightarrow> True | c # ds \<Rightarrow> c = CHR '':'' \<and> list_all is_digit ds)"

text \<open>The text of \<open>host\<close> from its last colon on, empty when it has none.\<close>

definition colonPort :: "string \<Rightarrow> string" where
  "colonPort host =
    (if CHR '':'' \<in> set host
     then CHR '':'' # rev (takeWhile (\<lambda>c. c \<noteq> CHR '':'') (rev host)) else [])"

definition parseAuthority :: "string \<Rightarrow> string parsed" where
  "parseAuthority authority =
    (if list_ex (\<lambda>c. c = CHR ''@'' \<or> c = CHR ''['' \<or> c = CHR ''%''
                    \<or> 128 \<le> (of_char c :: nat)) authority
     then Unmodelled
     else if \<not> validOptionalPort (colonPort authority) then ParseError
     else if \<not> list_all host_byte authority then ParseError
     else Parsed authority)"

definition setPath :: "string \<Rightarrow> url_URL \<Rightarrow> url_URL parsed" where
  "setPath p u = (if list_all path_byte p then Parsed (u\<lparr>Path := p\<rparr>) else Unmodelled)"

text \<open>\<open>parse(rawURL, false)\<close>, the text before \<open>#\<close>.\<close>

definition url_parse :: "string \<Rightarrow> url_URL parsed" where
  "url_parse rawURL =
    (if stringContainsCTLByte rawURL then ParseError
     else if rawURL = ''*'' then Parsed (empty_URL\<lparr>Path := ''*''\<rparr>)
     else
       (case getScheme rawURL of
          None \<Rightarrow> ParseError
        | Some (scheme, rest0) \<Rightarrow>
            let force = (HasSuffix rest0 ''?'' \<and> count_list rest0 (CHR ''?'') = 1);
                rest = (if force then butlast rest0 else Cut_before (CHR ''?'') rest0);
                query = (if force then [] else Cut_after (CHR ''?'') rest0);
                u = empty_URL\<lparr>Scheme := map lower_byte scheme, ForceQuery := force,
                      RawQuery := query\<rparr>
            in
            if \<not> HasPrefix rest ''/'' \<and> Scheme u \<noteq> [] then Parsed (u\<lparr>Opaque := rest\<rparr>)
            else if \<not> HasPrefix rest ''/'' \<and> CHR '':'' \<in> set (Cut_before (CHR ''/'') rest)
              then ParseError
            else if (Scheme u \<noteq> [] \<or> \<not> HasPrefix rest ''///'') \<and> HasPrefix rest ''//''
              then
                (let authority = Cut_before (CHR ''/'') (drop 2 rest);
                     path = dropWhile (\<lambda>c. c \<noteq> CHR ''/'') (drop 2 rest)
                 in case parseAuthority authority of
                      Parsed host \<Rightarrow> setPath path (u\<lparr>Host := host\<rparr>)
                    | ParseError \<Rightarrow> ParseError
                    | Unmodelled \<Rightarrow> Unmodelled)
            else setPath rest (u\<lparr>OmitHost := (Scheme u \<noteq> [] \<and> HasPrefix rest ''/'')\<rparr>)))"

definition url_Parse :: "string \<Rightarrow> url_URL parsed" where
  "url_Parse rawURL =
    (let frag = Cut_after (CHR ''#'') rawURL in
     case url_parse (Cut_before (CHR ''#'') rawURL) of
       Parsed u \<Rightarrow>
         if frag = [] then Parsed u
         else if list_all fragment_byte frag then Parsed (u\<lparr>Fragment := frag\<rparr>)
         else Unmodelled
     | ParseError \<Rightarrow> ParseError
     | Unmodelled \<Rightarrow> Unmodelled)"

text \<open>
  \<open>resolvePath\<close>: the reference is put after the last slash of the base, and the dot
  segments are removed while the result is written to \<open>dst\<close>.
\<close>

definition LastIndex_slash :: "string \<Rightarrow> nat" where
  "LastIndex_slash s = length s - length (takeWhile (\<lambda>c. c \<noteq> CHR ''/'') (rev s))"

fun split_slash :: "string \<Rightarrow> string \<Rightarrow> string list" where
  "split_slash cur [] = [cur]"
| "split_slash cur (c # cs) =
    (if c = CHR ''/'' then cur # split_slash [] cs else split_slash (cur @ [c]) cs)"

fun resolve_elems :: "string list \<Rightarrow> string \<Rightarrow> bool \<Rightarrow> string" where
  "resolve_elems [] dst first = dst"
| "resolve_elems (elem # elems) dst first =
    (if elem = ''.'' then resolve_elems elems dst False
     else if elem = ''..''
       then
         (let str = drop 1 dst in
          if CHR ''/'' \<in> set str
          then resolve_elems elems (''/'' @ take (LastIndex_slash str - 1) str) first
          else resolve_elems elems ''/'' True)
     else resolve_elems elems (dst @ (if first then [] else ''/'') @ elem) False)"

definition resolvePath :: "string \<Rightarrow> string \<Rightarrow> string" where
  "resolvePath base ref =
    (let full =
       (if ref = [] then base
        else if hd ref \<noteq> CHR ''/'' then take (LastIndex_slash base) base @ ref
        else ref)
     in
     if full = [] then []
     else
       let elems = split_slash [] full;
           dst = resolve_elems elems ''/'' True;
           r = (if last elems = ''.'' \<or> last elems = ''..'' then dst @ ''/'' else dst)
       in if 1 < length r \<and> r ! 1 = CHR ''/'' then drop 1 r else r)"

definition ResolveReference :: "url_URL \<Rightarrow> url_URL \<Rightarrow> url_URL" where
  "ResolveReference u ref =
    (let url = (if Scheme ref = [] then ref\<lparr>Scheme := Scheme u\<rparr> else ref) in
     if Scheme ref \<noteq> [] \<or> Host ref \<noteq> [] then url\<lparr>Path := resolvePath (Path ref) []\<rparr>
     else if Opaque ref \<noteq> [] then url\<lparr>Host := [], Path := []\<rparr>
     else
       let url1 =
         (if Path ref = [] \<and> \<not> ForceQuery ref \<and> RawQuery ref = []
          then (if Fragment ref = []
                then url\<lparr>RawQuery := RawQuery u, Fragment := Fragment u\<rparr>
                else url\<lparr>RawQuery := RawQuery u\<rparr>)
          else url)
       in
       if Path ref = [] \<and> Opaque u \<noteq> []
       then url1\<lparr>Opaque := Opaque u, Host := [], Path := []\<rparr>
       else url1\<lparr>Host := Host u, Path := resolvePath (Path u) (Path ref)\<rparr>)"

definition URL_String :: "url_URL \<Rightarrow> string" where
  "URL_String u =
    (let buf0 = (if Scheme u \<noteq> [] then Scheme u @ '':'' else []);
         buf1 =
           (if Opaque u \<noteq> [] then buf0 @ Opaque u
            else
              let b1 =
                (if (Scheme u \<noteq> [] \<or> Host u \<noteq> []) \<and> \<not> (OmitHost u \<and> Host u = [])
                 then buf0 @ (if Host u \<noteq> [] \<or> Path u \<noteq> [] then ''//'' else []) @ Host u
                 else buf0);
                  b2 = (if Path u \<noteq> [] \<and> hd (Path u) \<noteq> CHR ''/'' \<and> Host u \<noteq> []
                        then b1 @ ''/'' else b1);
                  b3 = (if b2 = [] \<and> CHR '':'' \<in> set (Cut_before (CHR ''/'') (Path u))
                        then ''./'' else b2)
              in b3 @ Path u);
         buf2 = (if ForceQuery u \<or> RawQuery u \<noteq> [] then buf1 @ ''?'' @ RawQuery u else buf1)
     in if Fragment u \<noteq> [] then buf2 @ ''#'' @ Fragment u else buf2)"

subsection \<open>utils.go: resolveURL\<close>

text \<open>\<open>None\<close>: the segment leaves the modelled part of net/url.\<close>

definition resolveURL :: "url_URL \<Rightarrow> string \<Rightarrow> string option" where
  "resolveURL baseURL segment =
    (if HasPrefix segment ''http://'' \<or> HasPrefix segment ''https://'' then Some segment
     else
       (case url_Parse segment of
          ParseError \<Rightarrow> Some segment
        | Unmodelled \<Rightarrow> None
        | Parsed segmentURL \<Rightarrow> Some (URL_String (ResolveReference baseURL segmentURL))))"

subsection \<open>The transport\<close>

text \<open>
  \<open>makeRequest\<close> hands the URL to the HTTP client. What comes back is the answer of the
  network: an error, or a response whose body is read to the end or fails while it is
  read. Errors are kept by the text of \<open>err.Error()\<close>.
\<close>

record http_Response =
  Status :: int
  RespHeader :: Header
  Body :: "string + string"

type_synonym transport = "string \<Rightarrow> string + http_Response"

datatype error =
  RequestError string
  | ReadError string
  | URLError string
  | ErrTooLong

subsection \<open>parseM3U8\<close>

text \<open>What the loop does with one line of the playlist.\<close>

datatype line = Skip | Segment string | Outside

definition control_bytes :: string where
  "control_bytes =
    [CHR 0x00, CHR 0x01, CHR 0x02, CHR 0x03, CHR 0x04, CHR 0x05, CHR 0x06, CHR 0x07,
     CHR 0x08, CHR 0x0B, CHR 0x0C, CHR 0x0E, CHR 0x0F]"

definition parse_line :: "url_URL \<Rightarrow> string \<Rightarrow> line" where
  "parse_line baseURL text =
    (let line = TrimSpace text in
     if line = [] \<or> HasPrefix line ''#'' then Skip
     else
       let cleanLine = cleanString line in
       if length cleanLine = 0 \<or> ContainsAny cleanLine control_bytes then Skip
       else if length cleanLine < 5 then Skip
       else
         (case resolveURL baseURL cleanLine of
            None \<Rightarrow> Outside
          | Some segmentURL \<Rightarrow>
              (case url_Parse segmentURL of
                 ParseError \<Rightarrow> Skip
               | Unmodelled \<Rightarrow> Outside
               | Parsed u \<Rightarrow>
                   if \<not> Contains segmentURL ''.'' \<and> \<not> Contains segmentURL ''seg''
                        \<and> \<not> Contains segmentURL ''chunk''
                   then Skip else Segment segmentURL)))"

fun parse_lines :: "url_URL \<Rightarrow> string list \<Rightarrow> string list \<Rightarrow> string list option" where
  "parse_lines baseURL segments [] = Some segments"
| "parse_lines baseURL segments (text # rest) =
    (case parse_line baseURL text of
       Skip \<Rightarrow> parse_lines baseURL segments rest
     | Segment segmentURL \<Rightarrow> parse_lines baseURL (segments @ [segmentURL]) rest
     | Outside \<Rightarrow> None)"

text \<open>
  \<open>parseM3U8\<close> returns the segments and an error value, \<open>None\<close> for \<open>nil\<close>. The outer
  \<open>None\<close> is a playlist with a URL outside the modelled part of net/url.
\<close>

definition parseM3U8 :: "transport \<Rightarrow> string \<Rightarrow> (string list \<times> error option) option" where
  "parseM3U8 rt m3u8URL =
    (case rt m3u8URL of
       Inl err \<Rightarrow> Some ([], Some (RequestError err))
     | Inr resp \<Rightarrow>
         (case Body resp of
            Inl err \<Rightarrow> Some ([], Some (ReadError err))
          | Inr body \<Rightarrow>
              (case url_Parse m3u8URL of
                 ParseError \<Rightarrow> Some ([], Some (URLError m3u8URL))
               | Unmodelled \<Rightarrow> None
               | Parsed baseURL \<Rightarrow>
                   (case parse_lines baseURL [] (fst (scan_lines [] body)) of
                      None \<Rightarrow> None
                    | Some segments \<Rightarrow>
                        Some (segments,
                          if snd (scan_lines [] body) then Some ErrTooLong else None)))))"

section \<open>Properties of the parser\<close>

text \<open>
  The playlist of three lines, once with newlines between the lines and once with
  every line ended by a carriage return and a newline.
\<close>

definition playlist_lf :: string where
  "playlist_lf = ''#EXTM3U'' @ [CHR 0x0A] @ ''seg001.ts'' @ [CHR 0x0A] @ ''seg002.ts''"

definition playlist_crlf :: string where
  "playlist_crlf =
    ''#EXTM3U'' @ [CHR 0x0D, CHR 0x0A] @ ''seg001.ts'' @ [CHR 0x0D, CHR 0x0A]
      @ ''seg002.ts'' @ [CHR 0x0D, CHR 0x0A]"

text \<open>A server that answers every request with status 200 and the given body.\<close>

definition serves :: "string \<Rightarrow> transport" where
  "serves body = (\<lambda>url. Inr \<lparr>Status = 200, RespHeader = Map.empty, Body = Inr body\<rparr>)"

lemma scan_three_lines:
  "scan_lines [] playlist_lf = ([''#EXTM3U'', ''seg001.ts'', ''seg002.ts''], False)"
  "scan_lines [] playlist_crlf = ([''#EXTM3U'', ''seg001.ts'', ''seg002.ts''], False)"
  by (simp_all add: playlist_lf_def playlist_crlf_def MaxScanTokenSize_def dropCR_def)

lemma parse_index_url:
  "url_Parse ''https://cdn.example/live/index.m3u8''
     = Parsed \<lparr>Scheme = ''https'', Opaque = [], Host = ''cdn.example'',
         Path = ''/live/index.m3u8'', ForceQuery = False, RawQuery = [], Fragment = [],
         OmitHost = False\<rparr>"
  by code_simp

lemma parse_line_comment:
  "parse_line \<lparr>Scheme = ''https'', Opaque = [], Host = ''cdn.example'',
      Path = ''/live/index.m3u8'', ForceQuery = False, RawQuery = [], Fragment = [],
      OmitHost = False\<rparr> ''#EXTM3U'' = Skip"
  by code_simp

lemma parse_line_seg001:
  "parse_line \<lparr>Scheme = ''https'', Opaque = [], Host = ''cdn.example'',
      Path = ''/live/index.m3u8'', ForceQuery = False, RawQuery = [], Fragment = [],
      OmitHost = False\<rparr> ''seg001.ts'' = Segment ''https://cdn.example/live/seg001.ts''"
  by code_simp

lemma parse_line_seg002:
  "parse_line \<lparr>Scheme = ''https'', Opaque = [], Host = ''cdn.example'',
      Path = ''/live/index.m3u8'', ForceQuery = False, RawQuery = [], Fragment = [],
      OmitHost = False\<rparr> ''seg002.ts'' = Segment ''https://cdn.example/live/seg002.ts''"
  by code_simp

text \<open>
  Claim C6. The playlist with the three lines \<open>#EXTM3U\<close>, \<open>seg001.ts\<close>, \<open>seg002.ts\<close>,
  fetched from \<open>https://cdn.example/live/index.m3u8\<close>, yields exactly the two segment
  URLs \<open>https://cdn.example/live/seg001.ts\<close> and \<open>https://cdn.example/live/seg002.ts\<close>,
  in that order and without error; the comment line yields none. This holds for both
  ways of ending the lines.
\<close>

theorem parseM3U8_three_lines:
  "parseM3U8 (serves playlist_lf) ''https://cdn.example/live/index.m3u8''
     = Some ([''https://cdn.example/live/seg001.ts'', ''https://cdn.example/live/seg002.ts''],
             None)
   \<and> parseM3U8 (serves playlist_crlf) ''https://cdn.example/live/index.m3u8''
     = Some ([''https://cdn.example/live/seg001.ts'', ''https://cdn.example/live/seg002.ts''],
             None)"
  by (simp add: parseM3U8_def serves_def scan_three_lines parse_index_url parse_line_comment
      parse_line_seg001 parse_line_seg002)

section \<open>warmer.go: one fetch, one pass, the report\<close>

subsection \<open>warmSegment\<close>

text \<open>
  One fetch, given the answer of the network to its request and the time it took. The
  text of a transport or read error goes through \<open>cleanString\<close>. A response is
  classified and its outcome is stored in \<open>cacheStats\<close>.
\<close>

definition first_values :: "Header \<Rightarrow> (string \<rightharpoonup> string)" where
  "first_values header =
    (\<lambda>key. case header key of None \<Rightarrow> None | Some [] \<Rightarrow> None | Some (v # vs) \<Rightarrow> Some v)"

definition failed :: "string \<Rightarrow> string \<Rightarrow> int \<Rightarrow> CacheStatus" where
  "failed segmentURL errMsg elapsed =
    \<lparr>URL = segmentURL, Hit = False, StatusCode = 0, Headers = Map.empty,
     Error = Some errMsg, Duration = elapsed\<rparr>"

definition warmSegment ::
  "(int \<Rightarrow> int) \<Rightarrow> string + http_Response \<Rightarrow> int \<Rightarrow> string \<Rightarrow> HLSWarmer
    \<Rightarrow> CacheStatus \<times> HLSWarmer" where
  "warmSegment CaseRanges answer elapsed segmentURL h =
    (case answer of
       Inl err \<Rightarrow> (failed segmentURL (cleanString err) elapsed, h)
     | Inr resp \<Rightarrow>
         (case Body resp of
            Inl err \<Rightarrow> (failed segmentURL (cleanString err) elapsed, h)
          | Inr body \<Rightarrow>
              let status =
                \<lparr>URL = segmentURL, Hit = detectCacheHit CaseRanges (RespHeader resp),
                 StatusCode = Status resp, Headers = first_values (RespHeader resp),
                 Error = None, Duration = elapsed\<rparr>
              in (status, h\<lparr>cacheStats := (cacheStats h)(segmentURL \<mapsto> status)\<rparr>)))"

subsection \<open>WarmM3U8\<close>

text \<open>
  The text of an error of \<open>parseM3U8\<close>. The text net/url gives the error of a URL it
  rejects is not modelled: it is the parameter \<open>url_error\<close>.
\<close>

definition Error_text :: "(string \<Rightarrow> string) \<Rightarrow> error \<Rightarrow> string" where
  "Error_text url_error err =
    (case err of
       RequestError msg \<Rightarrow> msg
     | ReadError msg \<Rightarrow> msg
     | URLError rawURL \<Rightarrow> url_error rawURL
     | ErrTooLong \<Rightarrow> ''bufio.Scanner: token too long'')"

text \<open>The loop that counts the hits and collects the errors of the outcomes.\<close>

fun count_results :: "CacheStatus list \<Rightarrow> WarmResult \<Rightarrow> WarmResult" where
  "count_results [] result = result"
| "count_results (r # rs) result =
    (case Error r of
       Some err \<Rightarrow> count_results rs (result\<lparr>Errors := Errors result @ [err]\<rparr>)
     | None \<Rightarrow>
         if Hit r then count_results rs (result\<lparr>CachedFiles := CachedFiles result + 1\<rparr>)
         else count_results rs result)"

text \<open>
  \<open>WarmM3U8\<close>: \<open>Inl\<close> is the error it returns, by its text. The workers of
  \<open>warmSegments\<close> deliver in an order the scheduler chooses; \<open>pool\<close> is what
  \<open>warmSegments\<close> returned for the segments. The outer \<open>None\<close> is that of \<open>parseM3U8\<close>.
  The Referer and Origin that \<open>WarmM3U8\<close> derives from the playlist URL only change the
  headers of the requests, which the transport sees.
\<close>

definition WarmM3U8 ::
  "transport \<Rightarrow> (string \<Rightarrow> string) \<Rightarrow> (string list \<Rightarrow> CacheStatus list) \<Rightarrow> int \<Rightarrow> string
    \<Rightarrow> (string + WarmResult) option" where
  "WarmM3U8 rt url_error pool elapsed m3u8URL =
    (case parseM3U8 rt m3u8URL of
       None \<Rightarrow> None
     | Some (segments, Some err) \<Rightarrow>
         Some (Inl (''M3U8 parse error: '' @ Error_text url_error err))
     | Some (segments, None) \<Rightarrow>
         let results = pool segments in
         Some (Inr (count_results results
           \<lparr>M3U8URL = m3u8URL, TotalFiles = int (length segments), CachedFiles = 0,
            Errors = [], TotalDuration = elapsed, Details = results\<rparr>)))"

subsection \<open>PrintResults\<close>

text \<open>
  A \<open>float64\<close> is a number or one of the three special values. Conversion, division
  and multiplication follow IEEE 754 where a special value comes in or goes out; on
  numbers they are exact here, the rounding of \<open>float64\<close> is not modelled.
\<close>

datatype f64 = Finite real | PosInf | NegInf | NaN

definition float64 :: "int \<Rightarrow> f64" where
  "float64 n = Finite (real_of_int n)"

fun f64_div :: "f64 \<Rightarrow> f64 \<Rightarrow> f64" where
  "f64_div (Finite a) (Finite b) =
    (if b \<noteq> 0 then Finite (a / b)
     else if a = 0 then NaN else if 0 < a then PosInf else NegInf)"
| "f64_div (Finite a) PosInf = Finite 0"
| "f64_div (Finite a) NegInf = Finite 0"
| "f64_div PosInf (Finite b) = (if 0 \<le> b then PosInf else NegInf)"
| "f64_div NegInf (Finite b) = (if 0 \<le> b then NegInf else PosInf)"
| "f64_div x y = NaN"

fun f64_mul :: "f64 \<Rightarrow> f64 \<Rightarrow> f64" where
  "f64_mul (Finite a) (Finite b) = Finite (a * b)"
| "f64_mul PosInf (Finite b) = (if b = 0 then NaN else if 0 < b then PosInf else NegInf)"
| "f64_mul NegInf (Finite b) = (if b = 0 then NaN else if 0 < b then NegInf else PosInf)"
| "f64_mul (Finite a) PosInf = (if a = 0 then NaN else if 0 < a then PosInf else NegInf)"
| "f64_mul (Finite a) NegInf = (if a = 0 then NaN else if 0 < a then NegInf else PosInf)"
| "f64_mul PosInf PosInf = PosInf"
| "f64_mul NegInf NegInf = PosInf"
| "f64_mul PosInf NegInf = NegInf"
| "f64_mul NegInf PosInf = NegInf"
| "f64_mul x y = NaN"

text \<open>
  The values \<open>PrintResults\<close> hands to \<open>Printf\<close> in its summary: the total, the hits, the
  misses, the number of errors, the ratio, and the texts of the errors it lists.
\<close>

record report =
  Total_Files :: int
  Cache_Hit :: int
  Cache_Miss :: int
  Error_Count :: int
  Cache_Ratio :: f64
  Error_Lines :: "string list"

definition PrintResults :: "WarmResult \<Rightarrow> report" where
  "PrintResults result =
    \<lparr>Total_Files = TotalFiles result,
     Cache_Hit = CachedFiles result,
     Cache_Miss = TotalFiles result - CachedFiles result,
     Error_Count = int (length (Errors result)),
     Cache_Ratio =
       f64_mul (f64_div (float64 (CachedFiles result)) (float64 (TotalFiles result)))
         (Finite 100),
     Error_Lines = Errors result\<rparr>"

subsection \<open>runOnceMode\<close>

text \<open>
  What single-pass mode shows for each playlist: the error of \<open>WarmM3U8\<close>, handed to
  \<open>log.Printf\<close> with the verb \<open>%v\<close>, or the report of \<open>PrintResults\<close>.
\<close>

datatype shown = LogError string | Results report

fun runOnceMode ::
  "transport \<Rightarrow> (string \<Rightarrow> string) \<Rightarrow> (string list \<Rightarrow> CacheStatus list) \<Rightarrow> int \<Rightarrow> string list
    \<Rightarrow> shown list option" where
  "runOnceMode rt url_error pool elapsed [] = Some []"
| "runOnceMode rt url_error pool elapsed (m3u8URL # rest) =
    (case WarmM3U8 rt url_error pool elapsed m3u8URL of
       None \<Rightarrow> None
     | Some (Inl err) \<Rightarrow>
         map_option (\<lambda>out. LogError err # out) (runOnceMode rt url_error pool elapsed rest)
     | Some (Inr result) \<Rightarrow>
         map_option (\<lambda>out. Results (PrintResults result) # out)
           (runOnceMode rt url_error pool elapsed rest))"

text \<open>
  The daemon shows the error of a failed parse through \<open>cleanString\<close>
  (\<open>warmStreamOnce\<close>).
\<close>

definition warmStreamOnce_parse_error :: "(string \<Rightarrow> string) \<Rightarrow> error \<Rightarrow> string" where
  "warmStreamOnce_parse_error url_error err = cleanString (Error_text url_error err)"

section \<open>Properties of the report\<close>

text \<open>
  For the examples: a transport that fails every request with the given text, a pool
  that is given no segment and returns no outcome, and an empty text for the errors of
  net/url.
\<close>

definition refuses :: "string \<Rightarrow> transport" where
  "refuses err = (\<lambda>url. Inl err)"

definition no_outcomes :: "string list \<Rightarrow> CacheStatus list" where
  "no_outcomes segments = []"

definition no_url_error :: "string \<Rightarrow> string" where
  "no_url_error rawURL = []"

text \<open>
  Claim C3, as amended. When the total is not 0, the cache ratio of the report is the
  hits divided by the total, times 100.
\<close>

theorem cache_ratio_nonzero_total:
  assumes "TotalFiles result \<noteq> 0"
  shows "Cache_Ratio (PrintResults result)
    = Finite (real_of_int (CachedFiles result) / real_of_int (TotalFiles result) * 100)"
  using assms by (simp add: PrintResults_def float64_def)

theorem cache_ratio_nonzero_total_witness:
  "Cache_Ratio (PrintResults
      \<lparr>M3U8URL = ''https://cdn.example/live/index.m3u8'', TotalFiles = 4, CachedFiles = 3,
       Errors = [], TotalDuration = 0, Details = []\<rparr>) = Finite 75"
  using cache_ratio_nonzero_total [of
      "\<lparr>M3U8URL = ''https://cdn.example/live/index.m3u8'', TotalFiles = 4, CachedFiles = 3,
        Errors = [], TotalDuration = 0, Details = []\<rparr>"]
  by simp

text \<open>
  Claim C3 as it is stated fails: nothing guards a total of 0. A playlist that holds
  only its header line gives a result with no files, and the ratio of its report is
  \<open>0 / 0 * 100\<close>, not a number.
\<close>

lemma parse_header_only:
  "parseM3U8 (serves ''#EXTM3U'') ''https://cdn.example/live/index.m3u8'' = Some ([], None)"
proof -
  have "scan_lines [] ''#EXTM3U'' = ([''#EXTM3U''], False)"
    by (simp add: MaxScanTokenSize_def dropCR_def)
  then show ?thesis
    by (simp add: parseM3U8_def serves_def parse_index_url parse_line_comment)
qed

theorem cache_ratio_counterexample:
  "WarmM3U8 (serves ''#EXTM3U'') no_url_error no_outcomes 0
      ''https://cdn.example/live/index.m3u8''
     = Some (Inr \<lparr>M3U8URL = ''https://cdn.example/live/index.m3u8'', TotalFiles = 0,
         CachedFiles = 0, Errors = [], TotalDuration = 0, Details = []\<rparr>)
   \<and> Cache_Ratio (PrintResults
        \<lparr>M3U8URL = ''https://cdn.example/live/index.m3u8'', TotalFiles = 0,
         CachedFiles = 0, Errors = [], TotalDuration = 0, Details = []\<rparr>) = NaN"
  by (simp add: WarmM3U8_def parse_header_only PrintResults_def float64_def no_outcomes_def)

text \<open>
  Claim C7 on the code. In single-pass mode the text of a failed playlist request reaches
  the log as the transport gave it: with the escape byte 0x1B in the text of the error,
  the text shown holds that byte, which is not printable. The daemon shows the same
  error without it.
\<close>

theorem runOnceMode_shows_raw_error:
  "runOnceMode (refuses (''malformed MIME header line: '' @ [CHR 0x1B] @ ''[2J''))
      no_url_error no_outcomes 0 [''https://cdn.example/live/index.m3u8'']
     = Some [LogError (''M3U8 parse error: malformed MIME header line: '' @ [CHR 0x1B] @ ''[2J'')]
   \<and> \<not> printable (CHR 0x1B)
   \<and> warmStreamOnce_parse_error no_url_error
        (RequestError (''malformed MIME header line: '' @ [CHR 0x1B] @ ''[2J''))
     = ''malformed MIME header line: [2J''"
  by (simp add: WarmM3U8_def parseM3U8_def Error_text_def printable_def refuses_def
      warmStreamOnce_parse_error_def cleanString_filter)

section \<open>warmer.go: warmSegments and its workers\<close>

text \<open>
  \<open>warmSegments\<close> runs the main goroutine, \<open>maxWorkers\<close> workers and the goroutine that
  waits for them. They meet at two buffered channels, \<open>jobs\<close> and \<open>results\<close>, both of the
  capacity \<open>len(segments)\<close>, and at the wait group. The model is the interleaving of
  their steps: a state of all of them, and one action for each step a goroutine can
  take. An action that its goroutine cannot take in a state, because it is elsewhere in
  its code or blocked on a channel, gives \<open>None\<close>.

  The main goroutine starts the workers, sends the segments, closes \<open>jobs\<close>, starts the
  waiting goroutine and collects from \<open>results\<close> until it is closed and empty.
\<close>

datatype main_pc = Spawning | Sending "string list" | Collecting | Returned

text \<open>
  A worker waits to receive from \<open>jobs\<close>, has a request in flight inside
  \<open>warmSegment\<close>, holds its outcome before the send on \<open>results\<close>, or has left its loop
  and called \<open>wg.Done\<close>.
\<close>

datatype worker = Idle | InFlight string | Holding CacheStatus | Exited

record pool =
  input :: "string list"
  pc :: main_pc
  workers :: "worker list"
  jobs :: "string list"
  jobs_closed :: bool
  results :: "CacheStatus list"
  results_closed :: bool
  allResults :: "CacheStatus list"
  hls :: HLSWarmer

definition warmSegments_start :: "HLSWarmer \<Rightarrow> string list \<Rightarrow> pool" where
  "warmSegments_start h segments =
    \<lparr>input = segments, pc = Spawning, workers = [], jobs = [], jobs_closed = False,
     results = [], results_closed = False, allResults = [], hls = h\<rparr>"

text \<open>The next step of the main goroutine.\<close>

definition main_step :: "pool \<Rightarrow> pool option" where
  "main_step s =
    (case pc s of
       Spawning \<Rightarrow>
         if int (length (workers s)) < maxWorkers (hls s)
         then Some (s\<lparr>workers := workers s @ [Idle]\<rparr>)
         else Some (s\<lparr>pc := Sending (input s)\<rparr>)
     | Sending [] \<Rightarrow> Some (s\<lparr>jobs_closed := True, pc := Collecting\<rparr>)
     | Sending (segment # rest) \<Rightarrow>
         if length (jobs s) < length (input s)
         then Some (s\<lparr>jobs := jobs s @ [segment], pc := Sending rest\<rparr>)
         else None
     | Collecting \<Rightarrow>
         (case results s of
            result # rest \<Rightarrow> Some (s\<lparr>allResults := allResults s @ [result], results := rest\<rparr>)
          | [] \<Rightarrow> if results_closed s then Some (s\<lparr>pc := Returned\<rparr>) else None)
     | Returned \<Rightarrow> None)"

text \<open>
  Worker \<open>i\<close> receives from \<open>jobs\<close>: the next segment, or the end of its loop when the
  channel is closed and empty.
\<close>

definition receive :: "nat \<Rightarrow> pool \<Rightarrow> pool option" where
  "receive i s =
    (if i < length (workers s) \<and> workers s ! i = Idle
     then
       (case jobs s of
          segmentURL # rest \<Rightarrow>
            Some (s\<lparr>workers := (workers s)[i := InFlight segmentURL], jobs := rest\<rparr>)
        | [] \<Rightarrow>
            if jobs_closed s then Some (s\<lparr>workers := (workers s)[i := Exited]\<rparr>) else None)
     else None)"

text \<open>The request of worker \<open>i\<close> is answered and \<open>warmSegment\<close> returns.\<close>

definition answer ::
  "(int \<Rightarrow> int) \<Rightarrow> nat \<Rightarrow> string + http_Response \<Rightarrow> int \<Rightarrow> pool \<Rightarrow> pool option" where
  "answer CaseRanges i ans elapsed s =
    (if i < length (workers s)
     then
       (case workers s ! i of
          InFlight segmentURL \<Rightarrow>
            (case warmSegment CaseRanges ans elapsed segmentURL (hls s) of
               (result, h) \<Rightarrow> Some (s\<lparr>workers := (workers s)[i := Holding result], hls := h\<rparr>))
        | _ \<Rightarrow> None)
     else None)"

text \<open>Worker \<open>i\<close> sends its outcome on \<open>results\<close>.\<close>

definition deliver :: "nat \<Rightarrow> pool \<Rightarrow> pool option" where
  "deliver i s =
    (if i < length (workers s)
     then
       (case workers s ! i of
          Holding result \<Rightarrow>
            if length (results s) < length (input s)
            then Some (s\<lparr>workers := (workers s)[i := Idle], results := results s @ [result]\<rparr>)
            else None
        | _ \<Rightarrow> None)
     else None)"

text \<open>
  The waiting goroutine exists once the main goroutine collects. \<open>wg.Wait\<close> returns
  when every worker has called \<open>wg.Done\<close>; then it closes \<open>results\<close>.
\<close>

definition wait_done :: "pool \<Rightarrow> pool option" where
  "wait_done s =
    (if (pc s = Collecting \<or> pc s = Returned) \<and> \<not> results_closed s
         \<and> list_all (\<lambda>w. w = Exited) (workers s)
     then Some (s\<lparr>results_closed := True\<rparr>)
     else None)"

datatype action =
  Main
  | Receive nat
  | Answer nat "string + http_Response" int
  | Deliver nat
  | WaitDone

fun pool_step :: "(int \<Rightarrow> int) \<Rightarrow> action \<Rightarrow> pool \<Rightarrow> pool option" where
  "pool_step CaseRanges Main s = main_step s"
| "pool_step CaseRanges (Receive i) s = receive i s"
| "pool_step CaseRanges (Answer i ans elapsed) s = answer CaseRanges i ans elapsed s"
| "pool_step CaseRanges (Deliver i) s = deliver i s"
| "pool_step CaseRanges WaitDone s = wait_done s"

fun pool_run :: "(int \<Rightarrow> int) \<Rightarrow> action list \<Rightarrow> pool \<Rightarrow> pool option" where
  "pool_run CaseRanges [] s = Some s"
| "pool_run CaseRanges (a # as) s =
    (case pool_step CaseRanges a s of None \<Rightarrow> None | Some s' \<Rightarrow> pool_run CaseRanges as s')"

text \<open>The requests in flight, and what \<open>warmSegments\<close> returns once it has returned.\<close>

definition in_flight :: "pool \<Rightarrow> nat" where
  "in_flight s = length (filter (\<lambda>w. case w of InFlight u \<Rightarrow> True | _ \<Rightarrow> False) (workers s))"

section \<open>Properties of warmSegments\<close>

subsection \<open>Every segment is somewhere\<close>

definition unsent :: "pool \<Rightarrow> string list" where
  "unsent s = (case pc s of Spawning \<Rightarrow> input s | Sending rest \<Rightarrow> rest | _ \<Rightarrow> [])"

definition held :: "worker \<Rightarrow> string multiset" where
  "held w = (case w of InFlight u \<Rightarrow> {#u#} | Holding r \<Rightarrow> {#URL r#} | _ \<Rightarrow> {#})"

definition conserved :: "pool \<Rightarrow> bool" where
  "conserved s =
    (mset (unsent s) + mset (jobs s) + sum_list (map held (workers s))
       + mset (map URL (results s)) + mset (map URL (allResults s)) = mset (input s))"

lemma held_simps [simp]:
  "held Idle = {#}"
  "held Exited = {#}"
  "held (InFlight u) = {#u#}"
  "held (Holding r) = {#URL r#}"
  by (simp_all add: held_def)

lemma sum_list_map_update:
  fixes f :: "'a \<Rightarrow> 'b::comm_monoid_add"
  assumes "i < length xs"
  shows "sum_list (map f (xs[i := y])) + f (xs ! i) = sum_list (map f xs) + f y"
  using assms
proof (induction xs arbitrary: i)
  case Nil
  then show ?case by simp
next
  case (Cons x xs)
  show ?case
  proof (cases i)
    case 0
    then show ?thesis by (simp add: ac_simps)
  next
    case (Suc j)
    then have "sum_list (map f (xs[j := y])) + f (xs ! j) = sum_list (map f xs) + f y"
      using Cons by simp
    then show ?thesis using Suc by (simp add: ac_simps)
  qed
qed

lemma warmSegment_URL: "URL (fst (warmSegment L ans elapsed u h)) = u"
  by (simp add: warmSegment_def failed_def Let_def split: sum.split)

lemma warmSegment_maxWorkers: "maxWorkers (snd (warmSegment L ans elapsed u h)) = maxWorkers h"
  by (simp add: warmSegment_def Let_def split: sum.split)

lemma conserved_start: "conserved (warmSegments_start h segments)"
  by (simp add: conserved_def warmSegments_start_def unsent_def)

lemma unsent_update [simp]:
  "unsent (s\<lparr>workers := ws\<rparr>) = unsent s"
  "unsent (s\<lparr>jobs := js\<rparr>) = unsent s"
  "unsent (s\<lparr>results := rs\<rparr>) = unsent s"
  "unsent (s\<lparr>allResults := as\<rparr>) = unsent s"
  "unsent (s\<lparr>hls := h\<rparr>) = unsent s"
  "unsent (s\<lparr>results_closed := b\<rparr>) = unsent s"
  "unsent (s\<lparr>jobs_closed := b\<rparr>) = unsent s"
  by (simp_all add: unsent_def split: main_pc.split)

lemma conserved_main:
  assumes "conserved s" and "main_step s = Some s'"
  shows "conserved s'"
proof (cases "pc s")
  case Spawning
  then show ?thesis
    using assms by (auto simp: conserved_def main_step_def unsent_def split: if_splits)
next
  case (Sending rest)
  then show ?thesis
    using assms
    by (cases rest) (auto simp: conserved_def main_step_def unsent_def split: if_splits)
next
  case Collecting
  then show ?thesis
    using assms
    by (cases "results s") (auto simp: conserved_def main_step_def unsent_def split: if_splits)
next
  case Returned
  then show ?thesis using assms by (simp add: main_step_def)
qed

lemma conserved_receive:
  assumes "conserved s" and "receive i s = Some s'"
  shows "conserved s'"
proof -
  have i: "i < length (workers s)" and idle: "workers s ! i = Idle"
    using assms(2) by (auto simp: receive_def split: if_splits)
  have upd: "sum_list (map held ((workers s)[i := w])) = sum_list (map held (workers s)) + held w"
    for w
    using sum_list_map_update [OF i, of held w] idle by (simp add: held_def)
  show ?thesis
  proof (cases "jobs s")
    case Nil
    then have "s' = s\<lparr>workers := (workers s)[i := Exited]\<rparr>"
      using assms(2) i idle by (simp add: receive_def split: if_splits)
    then show ?thesis using assms(1) Nil by (simp add: conserved_def upd held_def)
  next
    case (Cons u rest)
    then have "s' = s\<lparr>workers := (workers s)[i := InFlight u], jobs := rest\<rparr>"
      using assms(2) i idle by (simp add: receive_def)
    then show ?thesis using assms(1) Cons by (simp add: conserved_def upd held_def ac_simps)
  qed
qed

lemma conserved_answer:
  assumes "conserved s" and "answer L i ans elapsed s = Some s'"
  shows "conserved s'"
proof -
  have i: "i < length (workers s)"
    using assms(2) by (auto simp: answer_def split: if_splits)
  obtain u where u: "workers s ! i = InFlight u"
    using assms(2) i by (cases "workers s ! i") (auto simp: answer_def)
  let ?r = "fst (warmSegment L ans elapsed u (hls s))"
  have s': "s' = s\<lparr>workers := (workers s)[i := Holding ?r],
      hls := snd (warmSegment L ans elapsed u (hls s))\<rparr>"
    using assms(2) i u by (simp add: answer_def split: prod.splits)
  have "sum_list (map held ((workers s)[i := Holding ?r])) + held (InFlight u)
      = sum_list (map held (workers s)) + held (Holding ?r)"
    using sum_list_map_update [OF i, of held "Holding ?r"] u by simp
  then have "sum_list (map held ((workers s)[i := Holding ?r])) = sum_list (map held (workers s))"
    by (simp add: held_def warmSegment_URL)
  then show ?thesis using assms(1) s' by (simp add: conserved_def)
qed

lemma conserved_deliver:
  assumes "conserved s" and "deliver i s = Some s'"
  shows "conserved s'"
proof -
  have i: "i < length (workers s)"
    using assms(2) by (auto simp: deliver_def split: if_splits)
  obtain r where r: "workers s ! i = Holding r"
    using assms(2) i by (cases "workers s ! i") (auto simp: deliver_def)
  have s': "s' = s\<lparr>workers := (workers s)[i := Idle], results := results s @ [r]\<rparr>"
    using assms(2) i r by (simp add: deliver_def split: if_splits)
  have "sum_list (map held (workers s)) = sum_list (map held ((workers s)[i := Idle])) + {#URL r#}"
    using sum_list_map_update [OF i, of held Idle] r by simp
  then show ?thesis
    using assms(1) s' by (simp add: conserved_def ac_simps)
qed

lemma conserved_wait_done:
  assumes "conserved s" and "wait_done s = Some s'"
  shows "conserved s'"
  using assms by (auto simp: conserved_def wait_done_def split: if_splits)

lemma conserved_step:
  assumes "conserved s" and "pool_step L a s = Some s'"
  shows "conserved s'"
proof (cases a)
  case Main
  then show ?thesis using assms conserved_main by simp
next
  case (Receive i)
  then show ?thesis using assms conserved_receive by simp
next
  case (Answer i ans elapsed)
  then show ?thesis using assms conserved_answer by simp
next
  case (Deliver i)
  then show ?thesis using assms conserved_deliver by simp
next
  case WaitDone
  then show ?thesis using assms conserved_wait_done by simp
qed


lemma conserved_run:
  assumes "conserved s" and "pool_run L acts s = Some s'"
  shows "conserved s'"
  using assms
proof (induction acts arbitrary: s)
  case Nil
  then show ?case by simp
next
  case (Cons a acts)
  then obtain s1 where s1: "pool_step L a s = Some s1" and r: "pool_run L acts s1 = Some s'"
    by (auto split: option.splits)
  show ?case using Cons.IH [OF conserved_step [OF Cons.prems(1) s1] r] .
qed

subsection \<open>Where the goroutines are\<close>

definition shape :: "pool \<Rightarrow> bool" where
  "shape s =
    ((jobs_closed s \<longleftrightarrow> pc s = Collecting \<or> pc s = Returned)
     \<and> (pc s \<noteq> Spawning \<longrightarrow> \<not> int (length (workers s)) < maxWorkers (hls s))
     \<and> int (length (workers s)) \<le> max 0 (maxWorkers (hls s))
     \<and> (Exited \<in> set (workers s) \<longrightarrow> jobs s = [] \<and> jobs_closed s)
     \<and> (results_closed s \<longrightarrow> (\<forall>w \<in> set (workers s). w = Exited) \<and> jobs_closed s)
     \<and> (pc s = Returned \<longrightarrow> results s = [] \<and> results_closed s))"

lemma shape_start: "shape (warmSegments_start h segments)"
  by (simp add: shape_def warmSegments_start_def)

lemma in_set_update: "x \<in> set (xs[i := y]) \<Longrightarrow> x = y \<or> x \<in> set xs"
  using set_update_subset_insert [of xs i y] by auto

lemma shape_main:
  assumes "shape s" and "main_step s = Some s'"
  shows "shape s'"
proof (cases "pc s")
  case Spawning
  then show ?thesis
    using assms by (auto simp: shape_def main_step_def split: if_splits)
next
  case (Sending rest)
  then show ?thesis
    using assms by (cases rest) (auto simp: shape_def main_step_def split: if_splits)
next
  case Collecting
  then show ?thesis
    using assms by (cases "results s") (auto simp: shape_def main_step_def split: if_splits)
next
  case Returned
  then show ?thesis using assms by (simp add: main_step_def)
qed

lemma shape_receive:
  assumes "shape s" and "receive i s = Some s'"
  shows "shape s'"
proof -
  have i: "i < length (workers s)" and idle: "workers s ! i = Idle"
    using assms(2) by (auto simp: receive_def split: if_splits)
  have open_: "\<not> results_closed s"
    using assms(1) i idle nth_mem [OF i] by (auto simp: shape_def)
  show ?thesis
  proof (cases "jobs s")
    case Nil
    then have s': "s' = s\<lparr>workers := (workers s)[i := Exited]\<rparr>" and c: "jobs_closed s"
      using assms(2) i idle by (auto simp: receive_def split: if_splits)
    show ?thesis
      using assms(1) open_ Nil c unfolding s' shape_def by (auto dest: in_set_update)
  next
    case (Cons u rest)
    then have s': "s' = s\<lparr>workers := (workers s)[i := InFlight u], jobs := rest\<rparr>"
      using assms(2) i idle by (simp add: receive_def)
    have "Exited \<notin> set (workers s)" using assms(1) Cons by (auto simp: shape_def)
    then show ?thesis
      using assms(1) open_ unfolding s' shape_def by (auto dest: in_set_update)
  qed
qed

lemma shape_answer:
  assumes "shape s" and "answer L i ans elapsed s = Some s'"
  shows "shape s'"
proof -
  have i: "i < length (workers s)"
    using assms(2) by (auto simp: answer_def split: if_splits)
  obtain u where u: "workers s ! i = InFlight u"
    using assms(2) i by (cases "workers s ! i") (auto simp: answer_def)
  have s': "s' = s\<lparr>workers := (workers s)[i := Holding (fst (warmSegment L ans elapsed u (hls s)))],
      hls := snd (warmSegment L ans elapsed u (hls s))\<rparr>"
    using assms(2) i u by (simp add: answer_def split: prod.splits)
  have open_: "\<not> results_closed s"
    using assms(1) u nth_mem [OF i] by (auto simp: shape_def)
  show ?thesis
    using assms(1) open_ unfolding s' shape_def
    by (auto simp: warmSegment_maxWorkers dest: in_set_update)
qed

lemma shape_deliver:
  assumes "shape s" and "deliver i s = Some s'"
  shows "shape s'"
proof -
  have i: "i < length (workers s)"
    using assms(2) by (auto simp: deliver_def split: if_splits)
  obtain r where r: "workers s ! i = Holding r"
    using assms(2) i by (cases "workers s ! i") (auto simp: deliver_def)
  have s': "s' = s\<lparr>workers := (workers s)[i := Idle], results := results s @ [r]\<rparr>"
    using assms(2) i r by (simp add: deliver_def split: if_splits)
  have open_: "\<not> results_closed s"
    using assms(1) r nth_mem [OF i] by (auto simp: shape_def)
  show ?thesis
    using assms(1) open_ unfolding s' shape_def by (auto dest: in_set_update)
qed

lemma shape_wait_done:
  assumes "shape s" and "wait_done s = Some s'"
  shows "shape s'"
  using assms by (auto simp: shape_def wait_done_def list_all_iff split: if_splits)

lemma shape_step:
  assumes "shape s" and "pool_step L a s = Some s'"
  shows "shape s'"
proof (cases a)
  case Main
  then show ?thesis using assms shape_main by simp
next
  case (Receive i)
  then show ?thesis using assms shape_receive by simp
next
  case (Answer i ans elapsed)
  then show ?thesis using assms shape_answer by simp
next
  case (Deliver i)
  then show ?thesis using assms shape_deliver by simp
next
  case WaitDone
  then show ?thesis using assms shape_wait_done by simp
qed

lemma shape_run:
  assumes "shape s" and "pool_run L acts s = Some s'"
  shows "shape s'"
  using assms
proof (induction acts arbitrary: s)
  case Nil
  then show ?case by simp
next
  case (Cons a acts)
  then obtain s1 where s1: "pool_step L a s = Some s1" and r: "pool_run L acts s1 = Some s'"
    by (auto split: option.splits)
  show ?case using Cons.IH [OF shape_step [OF Cons.prems(1) s1] r] .
qed

text \<open>The segments and the number of workers do not change.\<close>

lemma fixed_step:
  assumes "pool_step L a s = Some s'"
  shows "input s' = input s \<and> maxWorkers (hls s') = maxWorkers (hls s)"
proof (cases a)
  case Main
  then show ?thesis
    using assms
    by (auto simp: main_step_def split: main_pc.splits list.splits if_splits)
next
  case (Receive i)
  then show ?thesis using assms by (auto simp: receive_def split: list.splits if_splits)
next
  case (Answer i ans elapsed)
  have "maxWorkers h' = maxWorkers (hls s)"
    if "warmSegment L ans elapsed u (hls s) = (r, h')" for u r h'
    using warmSegment_maxWorkers [of L ans elapsed u "hls s"] that by simp
  then show ?thesis
    using assms Answer
    by (auto simp: answer_def split: worker.splits if_splits prod.splits)
next
  case (Deliver i)
  then show ?thesis using assms by (auto simp: deliver_def split: worker.splits if_splits)
next
  case WaitDone
  then show ?thesis using assms by (auto simp: wait_done_def split: if_splits)
qed

lemma fixed_run:
  assumes "pool_run L acts s = Some s'"
  shows "input s' = input s \<and> maxWorkers (hls s') = maxWorkers (hls s)"
  using assms
proof (induction acts arbitrary: s)
  case Nil
  then show ?case by simp
next
  case (Cons a acts)
  then obtain s1 where s1: "pool_step L a s = Some s1" and r: "pool_run L acts s1 = Some s'"
    by (auto split: option.splits)
  show ?case using Cons.IH [OF r] fixed_step [OF s1] by simp
qed


subsection \<open>What is returned\<close>

lemma sum_held_Exited:
  assumes "\<forall>w \<in> set ws. w = Exited"
  shows "sum_list (map held ws) = {#}"
  using assms by (induction ws) auto

lemma returned_outcomes:
  assumes "conserved s" and "shape s" and "pc s = Returned" and "1 \<le> maxWorkers (hls s)"
  shows "mset (map URL (allResults s)) = mset (input s)"
proof -
  have all: "\<forall>w \<in> set (workers s). w = Exited" and res: "results s = []"
    using assms(2,3) by (auto simp: shape_def)
  have "\<not> int (length (workers s)) < maxWorkers (hls s)"
    using assms(2,3) by (auto simp: shape_def)
  then have "workers s \<noteq> []" using assms(4) by auto
  then have "Exited \<in> set (workers s)" using all by (cases "workers s") auto
  then have "jobs s = []" using assms(2) by (auto simp: shape_def)
  then show ?thesis
    using assms(1,3) res sum_held_Exited [OF all] by (simp add: conserved_def unsent_def)
qed

subsection \<open>No deadlock\<close>

lemma size_sum_held: "size (held w) \<le> size (sum_list (map held ws))" if "w \<in> set ws"
  using that by (induction ws) auto

lemma conserved_count:
  assumes "conserved s"
  shows "length (unsent s) + length (jobs s) + size (sum_list (map held (workers s)))
      + length (results s) + length (allResults s) = length (input s)"
proof -
  have "size (mset (unsent s) + mset (jobs s) + sum_list (map held (workers s))
      + mset (map URL (results s)) + mset (map URL (allResults s))) = size (mset (input s))"
    using assms by (simp only: conserved_def)
  then show ?thesis by simp
qed

lemma progress:
  assumes "conserved s" and "shape s" and "pc s \<noteq> Returned"
  shows "\<exists>a. pool_step L a s \<noteq> None"
proof (cases "pc s")
  case Spawning
  then have "pool_step L Main s \<noteq> None" by (simp add: main_step_def)
  then show ?thesis by blast
next
  case (Sending rest)
  show ?thesis
  proof (cases rest)
    case Nil
    then have "pool_step L Main s \<noteq> None" using Sending by (simp add: main_step_def)
    then show ?thesis by blast
  next
    case (Cons u rest')
    then have "length (jobs s) < length (input s)"
      using conserved_count [OF assms(1)] Sending by (simp add: unsent_def)
    then have "pool_step L Main s \<noteq> None" using Sending Cons by (simp add: main_step_def)
    then show ?thesis by blast
  qed
next
  case Collecting
  show ?thesis
  proof (cases "results s \<noteq> [] \<or> results_closed s")
    case True
    then have "pool_step L Main s \<noteq> None"
      using Collecting by (cases "results s") (auto simp: main_step_def)
    then show ?thesis by blast
  next
    case False
    then have res: "results s = []" and open_: "\<not> results_closed s" by auto
    show ?thesis
    proof (cases "\<forall>w \<in> set (workers s). w = Exited")
      case True
      then have "pool_step L WaitDone s \<noteq> None"
        using Collecting open_ by (simp add: wait_done_def list_all_iff)
      then show ?thesis by blast
    next
      case False
      then obtain i where i: "i < length (workers s)" and w: "workers s ! i \<noteq> Exited"
        by (auto simp: in_set_conv_nth)
      show ?thesis
      proof (cases "workers s ! i")
        case Idle
        have "jobs_closed s" using assms(2) Collecting by (simp add: shape_def)
        then have "pool_step L (Receive i) s \<noteq> None"
          using i Idle by (cases "jobs s") (auto simp: receive_def)
        then show ?thesis by blast
      next
        case (InFlight u)
        then have "pool_step L (Answer i (Inl []) 0) s \<noteq> None"
          using i by (simp add: answer_def split: prod.splits)
        then show ?thesis by blast
      next
        case (Holding r)
        have "size (held (workers s ! i)) \<le> size (sum_list (map held (workers s)))"
          using size_sum_held [OF nth_mem [OF i]] .
        then have "length (results s) < length (input s)"
          using conserved_count [OF assms(1)] Holding by simp
        then have "pool_step L (Deliver i) s \<noteq> None"
          using i Holding by (simp add: deliver_def)
        then show ?thesis by blast
      next
        case Exited
        then show ?thesis using w by simp
      qed
    qed
  qed
next
  case Returned
  then show ?thesis using assms(3) by simp
qed


subsection \<open>Every run ends\<close>

text \<open>
  The steps still to come, counted from above: each segment counts for the stages it
  has before it, each worker for its exit, and the main goroutine for what it has left
  to do apart from the segments.
\<close>

definition rank :: "main_pc \<Rightarrow> nat" where
  "rank p = (case p of Spawning \<Rightarrow> 3 | Sending rest \<Rightarrow> 2 | Collecting \<Rightarrow> 1 | Returned \<Rightarrow> 0)"

definition weight :: "worker \<Rightarrow> nat" where
  "weight w = (case w of Idle \<Rightarrow> 1 | InFlight u \<Rightarrow> 5 | Holding r \<Rightarrow> 4 | Exited \<Rightarrow> 0)"

definition steps_left :: "pool \<Rightarrow> nat" where
  "steps_left s =
    rank (pc s) + 2 * nat (maxWorkers (hls s) - int (length (workers s)))
      + (if results_closed s then 0 else 1)
      + 6 * length (unsent s) + 5 * length (jobs s) + sum_list (map weight (workers s))
      + 2 * length (results s) + length (allResults s)"

lemma weight_simps [simp]:
  "weight Idle = 1"
  "weight Exited = 0"
  "weight (InFlight u) = 5"
  "weight (Holding r) = 4"
  by (simp_all add: weight_def)

lemma steps_left_main:
  assumes "main_step s = Some s'"
  shows "steps_left s' < steps_left s"
proof (cases "pc s")
  case Spawning
  show ?thesis
  proof (cases "int (length (workers s)) < maxWorkers (hls s)")
    case True
    then have s': "s' = s\<lparr>workers := workers s @ [Idle]\<rparr>"
      using assms Spawning by (simp add: main_step_def)
    have "nat (maxWorkers (hls s) - int (length (workers s)))
        = Suc (nat (maxWorkers (hls s) - (int (length (workers s)) + 1)))"
      using True by simp
    then show ?thesis unfolding s' by (simp add: steps_left_def)
  next
    case False
    then have "s' = s\<lparr>pc := Sending (input s)\<rparr>"
      using assms Spawning by (simp add: main_step_def)
    then show ?thesis using Spawning by (simp add: steps_left_def rank_def unsent_def)
  qed
next
  case (Sending rest)
  then show ?thesis
    using assms
    by (cases rest) (auto simp: main_step_def steps_left_def rank_def unsent_def split: if_splits)
next
  case Collecting
  then show ?thesis
    using assms
    by (cases "results s")
      (auto simp: main_step_def steps_left_def rank_def unsent_def split: if_splits)
next
  case Returned
  then show ?thesis using assms by (simp add: main_step_def)
qed

lemma steps_left_receive:
  assumes "receive i s = Some s'"
  shows "steps_left s' < steps_left s"
proof -
  have i: "i < length (workers s)" and idle: "workers s ! i = Idle"
    using assms by (auto simp: receive_def split: if_splits)
  have upd: "sum_list (map weight ((workers s)[i := w])) + 1
      = sum_list (map weight (workers s)) + weight w" for w
    using sum_list_map_update [OF i, of weight w] idle by simp
  show ?thesis
  proof (cases "jobs s")
    case Nil
    then have s': "s' = s\<lparr>workers := (workers s)[i := Exited]\<rparr>"
      using assms i idle by (simp add: receive_def split: if_splits)
    show ?thesis unfolding s' using upd [of Exited] by (simp add: steps_left_def)
  next
    case (Cons u rest)
    then have s': "s' = s\<lparr>workers := (workers s)[i := InFlight u], jobs := rest\<rparr>"
      using assms i idle by (simp add: receive_def)
    show ?thesis unfolding s' using upd [of "InFlight u"] Cons by (simp add: steps_left_def)
  qed
qed

lemma steps_left_answer:
  assumes "answer L i ans elapsed s = Some s'"
  shows "steps_left s' < steps_left s"
proof -
  have i: "i < length (workers s)"
    using assms by (auto simp: answer_def split: if_splits)
  obtain u where u: "workers s ! i = InFlight u"
    using assms i by (cases "workers s ! i") (auto simp: answer_def)
  let ?r = "fst (warmSegment L ans elapsed u (hls s))"
  have s': "s' = s\<lparr>workers := (workers s)[i := Holding ?r],
      hls := snd (warmSegment L ans elapsed u (hls s))\<rparr>"
    using assms i u by (simp add: answer_def split: prod.splits)
  have "sum_list (map weight ((workers s)[i := Holding ?r])) + 5
      = sum_list (map weight (workers s)) + 4"
    using sum_list_map_update [OF i, of weight "Holding ?r"] u by simp
  then show ?thesis unfolding s' by (simp add: steps_left_def warmSegment_maxWorkers)
qed

lemma steps_left_deliver:
  assumes "deliver i s = Some s'"
  shows "steps_left s' < steps_left s"
proof -
  have i: "i < length (workers s)"
    using assms by (auto simp: deliver_def split: if_splits)
  obtain r where r: "workers s ! i = Holding r"
    using assms i by (cases "workers s ! i") (auto simp: deliver_def)
  have s': "s' = s\<lparr>workers := (workers s)[i := Idle], results := results s @ [r]\<rparr>"
    using assms i r by (simp add: deliver_def split: if_splits)
  have "sum_list (map weight ((workers s)[i := Idle])) + 4
      = sum_list (map weight (workers s)) + 1"
    using sum_list_map_update [OF i, of weight Idle] r by simp
  then show ?thesis unfolding s' by (simp add: steps_left_def)
qed

lemma steps_left_wait_done:
  assumes "wait_done s = Some s'"
  shows "steps_left s' < steps_left s"
  using assms by (auto simp: wait_done_def steps_left_def split: if_splits)

lemma steps_left_step:
  assumes "pool_step L a s = Some s'"
  shows "steps_left s' < steps_left s"
proof (cases a)
  case Main
  then show ?thesis using assms steps_left_main by simp
next
  case (Receive i)
  then show ?thesis using assms steps_left_receive by simp
next
  case (Answer i ans elapsed)
  then show ?thesis using assms steps_left_answer by simp
next
  case (Deliver i)
  then show ?thesis using assms steps_left_deliver by simp
next
  case WaitDone
  then show ?thesis using assms steps_left_wait_done by simp
qed

lemma steps_left_run:
  assumes "pool_run L acts s = Some s'"
  shows "steps_left s' + length acts \<le> steps_left s"
  using assms
proof (induction acts arbitrary: s)
  case Nil
  then show ?case by simp
next
  case (Cons a acts)
  then obtain s1 where s1: "pool_step L a s = Some s1" and r: "pool_run L acts s1 = Some s'"
    by (auto split: option.splits)
  show ?case using Cons.IH [OF r] steps_left_step [OF s1] by simp
qed

lemma finishes:
  assumes "conserved s" and "shape s"
  shows "\<exists>acts s'. pool_run L acts s = Some s' \<and> pc s' = Returned"
  using assms
proof (induction "steps_left s" arbitrary: s rule: less_induct)
  case less
  show ?case
  proof (cases "pc s = Returned")
    case True
    then have "pool_run L [] s = Some s \<and> pc s = Returned" by simp
    then show ?thesis by blast
  next
    case False
    then obtain a s1 where s1: "pool_step L a s = Some s1"
      using progress [OF less.prems False, of L] by auto
    obtain acts s' where "pool_run L acts s1 = Some s'" and "pc s' = Returned"
      using less.hyps [OF steps_left_step [OF s1] conserved_step [OF less.prems(1) s1]
          shape_step [OF less.prems(2) s1]]
      by blast
    then have "pool_run L (a # acts) s = Some s' \<and> pc s' = Returned"
      using s1 by simp
    then show ?thesis by blast
  qed
qed

lemma pool_run_append:
  "pool_run L (as @ bs) s = (case pool_run L as s of None \<Rightarrow> None | Some s' \<Rightarrow> pool_run L bs s')"
  by (induction as arbitrary: s) (auto split: option.splits)


subsection \<open>The two claims\<close>

text \<open>What \<open>warmSegments\<close> returns, once it has returned.\<close>

definition returned :: "pool \<Rightarrow> CacheStatus list option" where
  "returned s = (if pc s = Returned then Some (allResults s) else None)"

text \<open>
  A run for the examples: one worker and one segment, whose request fails after 5
  nanoseconds.
\<close>

definition one_worker :: HLSWarmer where
  "one_worker = NewHLSWarmer \<lparr>Workers = 1, TTL = 0, RewarmLast = 0, Debug = False, Quiet = False\<rparr>"

definition start_of_run :: "action list" where
  "start_of_run = [Main, Main, Main, Main, Receive 0]"

definition rest_of_run :: "action list" where
  "rest_of_run = [Answer 0 (Inl ''timeout'') 5, Deliver 0, Receive 0, WaitDone, Main, Main]"

text \<open>
  Claim C1. For every list of segments and every number of workers \<open>N \<ge> 1\<close>, in whatever
  order the goroutines take their steps: the pool is never stuck before \<open>warmSegments\<close>
  has returned, it can always be run on to the return, no run is longer than
  \<open>4 + 2 N + 6 M\<close> steps, and what is returned has exactly one outcome for every input
  URL, \<open>M\<close> outcomes in all.
\<close>

theorem warmSegments_one_outcome_each:
  assumes "1 \<le> maxWorkers h"
    and "pool_run L acts (warmSegments_start h segments) = Some s"
  shows "(\<forall>outcomes. returned s = Some outcomes \<longrightarrow>
            length outcomes = length segments \<and> mset (map URL outcomes) = mset segments)
    \<and> (returned s = None \<longrightarrow> (\<exists>a. pool_step L a s \<noteq> None))
    \<and> (\<exists>more s'. pool_run L (acts @ more) (warmSegments_start h segments) = Some s'
          \<and> returned s' \<noteq> None)
    \<and> length acts \<le> 4 + 2 * nat (maxWorkers h) + 6 * length segments"
proof -
  let ?s0 = "warmSegments_start h segments"
  have c: "conserved s" using conserved_run [OF conserved_start assms(2)] .
  have sh: "shape s" using shape_run [OF shape_start assms(2)] .
  have fx: "input s = segments" and mw: "maxWorkers (hls s) = maxWorkers h"
    using fixed_run [OF assms(2)] by (simp_all add: warmSegments_start_def)
  have out: "length outcomes = length segments \<and> mset (map URL outcomes) = mset segments"
    if "returned s = Some outcomes" for outcomes
  proof -
    have r: "pc s = Returned" and o: "outcomes = allResults s"
      using that by (auto simp: returned_def split: if_splits)
    have m: "mset (map URL outcomes) = mset segments"
      using returned_outcomes [OF c sh r] assms(1) mw fx o by simp
    then have "length (map URL outcomes) = length segments"
      by (rule mset_eq_length)
    then show ?thesis using m by simp
  qed
  have live: "\<exists>a. pool_step L a s \<noteq> None" if "returned s = None"
    using progress [OF c sh, of L] that by (auto simp: returned_def split: if_splits)
  obtain more s' where m: "pool_run L more s = Some s'" and r: "pc s' = Returned"
    using finishes [OF c sh, of L] by blast
  have fin: "pool_run L (acts @ more) ?s0 = Some s' \<and> returned s' \<noteq> None"
    using assms(2) m r by (simp add: pool_run_append returned_def)
  have "steps_left ?s0 = 4 + 2 * nat (maxWorkers h) + 6 * length segments"
    by (simp add: steps_left_def warmSegments_start_def rank_def unsent_def)
  then have bound: "length acts \<le> 4 + 2 * nat (maxWorkers h) + 6 * length segments"
    using steps_left_run [OF assms(2)] by simp
  show ?thesis using out live fin bound by blast
qed

lemma example_run_start:
  "pool_run id start_of_run (warmSegments_start one_worker [''https://cdn.example/live/seg001.ts''])
     = Some \<lparr>input = [''https://cdn.example/live/seg001.ts''], pc = Collecting,
         workers = [InFlight ''https://cdn.example/live/seg001.ts''], jobs = [],
         jobs_closed = True, results = [], results_closed = False, allResults = [],
         hls = one_worker\<rparr>"
  by (simp add: start_of_run_def warmSegments_start_def main_step_def receive_def one_worker_def
      NewHLSWarmer_def)

lemma example_run_rest:
  "pool_run id rest_of_run
      \<lparr>input = [''https://cdn.example/live/seg001.ts''], pc = Collecting,
         workers = [InFlight ''https://cdn.example/live/seg001.ts''], jobs = [],
         jobs_closed = True, results = [], results_closed = False, allResults = [],
         hls = one_worker\<rparr>
     = Some \<lparr>input = [''https://cdn.example/live/seg001.ts''], pc = Returned,
         workers = [Exited], jobs = [], jobs_closed = True, results = [],
         results_closed = True,
         allResults = [failed ''https://cdn.example/live/seg001.ts'' ''timeout'' 5],
         hls = one_worker\<rparr>"
  by (simp add: rest_of_run_def main_step_def receive_def answer_def deliver_def wait_done_def
      warmSegment_def cleanString_filter printable_def)

text \<open>The theorem at the run of one worker and one segment, taken to its end.\<close>

theorem warmSegments_one_outcome_each_witness:
  "map_option returned
      (pool_run id (start_of_run @ rest_of_run)
        (warmSegments_start one_worker [''https://cdn.example/live/seg001.ts'']))
     = Some (Some [failed ''https://cdn.example/live/seg001.ts'' ''timeout'' 5])
   \<and> length [failed ''https://cdn.example/live/seg001.ts'' ''timeout'' 5]
     = length [''https://cdn.example/live/seg001.ts'']
   \<and> length (start_of_run @ rest_of_run) \<le> 4 + 2 * nat (maxWorkers one_worker) + 6 * 1"
proof -
  let ?u = "''https://cdn.example/live/seg001.ts''"
  let ?end = "\<lparr>input = [?u], pc = Returned, workers = [Exited], jobs = [], jobs_closed = True,
      results = [], results_closed = True, allResults = [failed ?u ''timeout'' 5],
      hls = one_worker\<rparr>"
  have n: "1 \<le> maxWorkers one_worker"
    by (simp add: one_worker_def NewHLSWarmer_def)
  have run: "pool_run id (start_of_run @ rest_of_run) (warmSegments_start one_worker [?u])
      = Some ?end"
    by (simp add: pool_run_append example_run_start example_run_rest)
  have ret: "returned ?end = Some [failed ?u ''timeout'' 5]"
    by (simp add: returned_def)
  show ?thesis
    using warmSegments_one_outcome_each [OF n run] run ret by simp
qed

text \<open>
  Claim C9. For every number of workers \<open>N \<ge> 1\<close> and every list of segments, in every
  state of every run of \<open>warmSegments\<close> at most \<open>N\<close> requests are in flight.
\<close>

theorem warmSegments_in_flight:
  assumes "1 \<le> maxWorkers h"
    and "pool_run L acts (warmSegments_start h segments) = Some s"
  shows "int (in_flight s) \<le> maxWorkers h"
proof -
  have sh: "shape s" using shape_run [OF shape_start assms(2)] .
  have mw: "maxWorkers (hls s) = maxWorkers h"
    using fixed_run [OF assms(2)] by (simp add: warmSegments_start_def)
  have "in_flight s \<le> length (workers s)"
    by (simp add: in_flight_def)
  moreover have "int (length (workers s)) \<le> maxWorkers h"
    using sh mw assms(1) by (simp add: shape_def)
  ultimately show ?thesis by simp
qed

text \<open>The theorem at the state in which the one worker has its request in flight.\<close>

theorem warmSegments_in_flight_witness:
  "map_option in_flight
      (pool_run id start_of_run
        (warmSegments_start one_worker [''https://cdn.example/live/seg001.ts''])) = Some 1
   \<and> maxWorkers one_worker = 1"
proof -
  have n: "1 \<le> maxWorkers one_worker"
    by (simp add: one_worker_def NewHLSWarmer_def)
  show ?thesis
    using warmSegments_in_flight [OF n example_run_start] example_run_start
    by (simp add: in_flight_def one_worker_def NewHLSWarmer_def)
qed

end
